theory Spec2Isabelle
  imports Complex_Main
begin

section \<open>Python and NumPy primitives used by the notebook\<close>

text \<open>
  The development follows the code cells of \<^verbatim>\<open>wk9/Anna KaRNNa Name Scoped.ipynb\<close>.
  Exceptions are values of \<open>py_error\<close>; a function that can raise returns
  \<open>py_error + 'a\<close> with \<open>Inl\<close> for the exception.
\<close>

datatype py_error = ZeroDivisionError | ValueError | IndexError | KeyError | UnboundLocalError

text \<open>
  \<^verbatim>\<open>int(r)\<close> on a float truncates towards zero. Floats are modelled by the reals: the
  rounding of a float product or quotient is not part of the model. For array lengths below
  \<open>2^53\<close> the float quotient of two lengths truncates to the integer quotient, which is what
  \<open>py_int_divide\<close> below states for the model.
\<close>

definition py_int :: "real \<Rightarrow> int" where
  "py_int r = (if 0 \<le> r then \<lfloor>r\<rfloor> else \<lceil>r\<rceil>)"

text \<open>
  Slice bounds: a negative bound counts from the end, and every bound is clamped to the
  length. \<^verbatim>\<open>xs[a:b]\<close> is \<open>py_slice a b xs\<close>, \<^verbatim>\<open>xs[:b]\<close> is \<open>slice_to b xs\<close> and
  \<^verbatim>\<open>xs[a:]\<close> is \<open>slice_from a xs\<close>.
\<close>

definition py_index :: "int \<Rightarrow> nat \<Rightarrow> nat" where
  "py_index k n = (if k < 0 then nat (max 0 (int n + k)) else min (nat k) n)"

definition slice_to :: "int \<Rightarrow> 'a list \<Rightarrow> 'a list" where
  "slice_to b xs = take (py_index b (length xs)) xs"

definition slice_from :: "int \<Rightarrow> 'a list \<Rightarrow> 'a list" where
  "slice_from a xs = drop (py_index a (length xs)) xs"

definition py_slice :: "int \<Rightarrow> int \<Rightarrow> 'a list \<Rightarrow> 'a list" where
  "py_slice a b xs = drop (py_index a (length xs)) (take (py_index b (length xs)) xs)"

text \<open>
  \<^verbatim>\<open>np.split(xs, k)\<close> with an integer \<open>k\<close> raises ValueError unless \<open>k\<close> divides the
  length, and then cuts \<open>xs\<close> into \<open>k\<close> consecutive pieces of equal length.
  \<^verbatim>\<open>np.stack\<close> needs at least one array, all of one shape. A two-dimensional array is
  the list of its rows.
\<close>

definition np_split :: "'a list \<Rightarrow> nat \<Rightarrow> py_error + 'a list list" where
  "np_split xs k =
     (if k = 0 then Inl ZeroDivisionError
      else if length xs mod k \<noteq> 0 then Inl ValueError
      else Inr (map (\<lambda>i. take (length xs div k) (drop (i * (length xs div k)) xs)) [0..<k]))"

definition np_stack :: "'a list list \<Rightarrow> py_error + 'a list list" where
  "np_stack rows =
     (case rows of
        [] \<Rightarrow> Inl ValueError
      | r # rs \<Rightarrow> if list_all (\<lambda>r'. length r' = length r) rs then Inr rows else Inl ValueError)"

definition shape :: "'a list list \<Rightarrow> nat \<times> nat" where
  "shape m = (length m, case m of [] \<Rightarrow> 0 | r # _ \<Rightarrow> length r)"

section \<open>Vocabulary construction\<close>

text \<open>
  \<^verbatim>\<open>
  vocab = set(text)
  vocab_to_int = {c: i for i, c in enumerate(vocab)}
  int_to_vocab = dict(enumerate(vocab))
  chars = np.array([vocab_to_int[c] for c in text], dtype=np.int32)
  \<close>
  Iterating a Python set visits every element once, in an order the language does not
  fix; both enumerations iterate the same unmodified set and so see the same order. The
  order is the parameter \<open>vocab\<close> of the model, and \<open>is_set_iteration text vocab\<close> says
  that \<open>vocab\<close> is an iteration of \<^verbatim>\<open>set(text)\<close>. A dictionary lookup of a missing key
  raises KeyError.
\<close>

definition is_set_iteration :: "'a list \<Rightarrow> 'a list \<Rightarrow> bool" where
  "is_set_iteration text vocab \<longleftrightarrow> distinct vocab \<and> set vocab = set text"

definition vocab_to_int :: "'a list \<Rightarrow> ('a \<rightharpoonup> nat)" where
  "vocab_to_int vocab = fold (\<lambda>(i, c) m. m(c \<mapsto> i)) (enumerate 0 vocab) Map.empty"

definition int_to_vocab :: "'a list \<Rightarrow> (nat \<rightharpoonup> 'a)" where
  "int_to_vocab vocab = fold (\<lambda>(i, c) m. m(i \<mapsto> c)) (enumerate 0 vocab) Map.empty"

fun encode :: "('a \<rightharpoonup> nat) \<Rightarrow> 'a list \<Rightarrow> py_error + nat list" where
  "encode m [] = Inr []"
| "encode m (c # cs) =
     (case m c of
        None \<Rightarrow> Inl KeyError
      | Some i \<Rightarrow> (case encode m cs of Inl e \<Rightarrow> Inl e | Inr js \<Rightarrow> Inr (i # js)))"

definition build_vocabulary ::
  "'a list \<Rightarrow> 'a list \<Rightarrow> py_error + (('a \<rightharpoonup> nat) \<times> (nat \<rightharpoonup> 'a) \<times> nat list)" where
  "build_vocabulary vocab text =
     (case encode (vocab_to_int vocab) text of
        Inl e \<Rightarrow> Inl e
      | Inr chars \<Rightarrow> Inr (vocab_to_int vocab, int_to_vocab vocab, chars))"

section \<open>Splitting the token stream into lanes\<close>

text \<open>
  \<^verbatim>\<open>
  def split_data(chars, batch_size, num_steps, split_frac=0.9):
      slice_size = batch_size * num_steps
      n_batches = int(len(chars) / slice_size)
      x = chars[: n_batches*slice_size]
      y = chars[1: n_batches*slice_size + 1]
      x = np.stack(np.split(x, batch_size))
      y = np.stack(np.split(y, batch_size))
      split_idx = int(n_batches*split_frac)
      train_x, train_y= x[:, :split_idx*num_steps], y[:, :split_idx*num_steps]
      val_x, val_y = x[:, split_idx*num_steps:], y[:, split_idx*num_steps:]
      return train_x, train_y, val_x, val_y
  \<close>
  The sizes \<open>batch_size\<close> and \<open>num_steps\<close> are natural numbers.
\<close>

definition split_data ::
  "'a list \<Rightarrow> nat \<Rightarrow> nat \<Rightarrow> real \<Rightarrow>
   py_error + ('a list list \<times> 'a list list \<times> 'a list list \<times> 'a list list)" where
  "split_data chars batch_size num_steps split_frac =
     (let slice_size = batch_size * num_steps in
      if slice_size = 0 then Inl ZeroDivisionError
      else
        let n_batches = py_int (real (length chars) / real slice_size);
            x = slice_to (n_batches * int slice_size) chars;
            y = py_slice 1 (n_batches * int slice_size + 1) chars
        in case np_split x batch_size of
             Inl e \<Rightarrow> Inl e
           | Inr xs \<Rightarrow>
        (case np_stack xs of
             Inl e \<Rightarrow> Inl e
           | Inr x \<Rightarrow>
        (case np_split y batch_size of
             Inl e \<Rightarrow> Inl e
           | Inr ys \<Rightarrow>
        (case np_stack ys of
             Inl e \<Rightarrow> Inl e
           | Inr y \<Rightarrow>
             let split_idx = py_int (real_of_int n_batches * split_frac);
                 k = split_idx * int num_steps
             in Inr (map (slice_to k) x, map (slice_to k) y,
                     map (slice_from k) x, map (slice_from k) y)))))"

section \<open>Windows over the lane matrices\<close>

text \<open>
  \<^verbatim>\<open>
  def get_batch(arrs, num_steps):
      batch_size, slice_size = arrs[0].shape
      n_batches = int(slice_size/num_steps)
      for b in range(n_batches):
          yield [x[:, b*num_steps: (b+1)*num_steps] for x in arrs]
  \<close>
  The generator is the list of what it yields; an exception raised when it is first
  advanced is the result \<open>Inl\<close>.
\<close>

definition get_batch :: "'a list list list \<Rightarrow> nat \<Rightarrow> py_error + 'a list list list list" where
  "get_batch arrs num_steps =
     (case arrs of
        [] \<Rightarrow> Inl IndexError
      | a0 # _ \<Rightarrow>
          let (batch_size, slice_size) = shape a0 in
          if num_steps = 0 then Inl ZeroDivisionError
          else
            let n_batches = py_int (real slice_size / real num_steps)
            in Inr (map (\<lambda>b. map (\<lambda>x. map (py_slice (int (b * num_steps))
                                               (int ((b + 1) * num_steps))) x) arrs)
                        [0..<nat n_batches]))"

section \<open>Training loop\<close>

text \<open>
  \<^verbatim>\<open>
  n_batches = int(train_x.shape[1]/num_steps)
  iterations = n_batches * epochs
  for e in range(epochs):
      new_state = sess.run(model.initial_state)
      loss = 0
      for b, (x, y) in enumerate(get_batch([train_x, train_y], num_steps), 1):
          iteration = e*n_batches + b
          feed = {model.inputs: x, model.targets: y, model.keep_prob: 0.5,
                  model.initial_state: new_state}
          batch_loss, new_state, _ = sess.run([model.cost, model.final_state, model.optimizer],
                                               feed_dict=feed)
          loss += batch_loss
          if (iteration%save_every_n == 0) or (iteration == iterations):
              val_loss = []
              new_state = sess.run(model.initial_state)
              for x, y in get_batch([val_x, val_y], num_steps):
                  feed = {model.inputs: x, model.targets: y, model.keep_prob: 1.,
                          model.initial_state: new_state}
                  batch_loss, new_state = sess.run([model.cost, model.final_state], feed_dict=feed)
                  val_loss.append(batch_loss)
              saver.save(sess, "checkpoints/anna/i{}_l{}_{:.3f}.ckpt".format(...))
  \<close>
  The TensorFlow graph is a parameter: \<open>zero_state\<close> is what
  \<^verbatim>\<open>sess.run(model.initial_state)\<close> returns, \<open>train_run\<close> is the run that fetches cost,
  final state and optimizer (it changes the session \<open>'p\<close>: variables, optimizer slots,
  dropout randomness), \<open>eval_run\<close> the run that fetches cost and final state only.
  The record \<open>training\<close> holds the variables of the cell; \<open>fed\<close> is an observation added
  by the model: for each training iteration, the state fed to the run and the state it
  returned. \<open>saved\<close> lists the checkpoints written, each with its validation losses.
\<close>

record ('p, 's, 'a) graph =
  zero_state :: 's
  train_run :: "'p \<Rightarrow> 'a list list \<Rightarrow> 'a list list \<Rightarrow> 's \<Rightarrow> real \<times> 's \<times> 'p"
  eval_run :: "'p \<Rightarrow> 'a list list \<Rightarrow> 'a list list \<Rightarrow> 's \<Rightarrow> real \<times> 's"

record ('p, 's) training =
  session :: 'p
  new_state :: 's
  loss :: real
  fed :: "(int \<times> 's \<times> 's) list"
  saved :: "(int \<times> real list) list"

fun validation_loop ::
  "('p, 's, 'a) graph \<Rightarrow> 'p \<Rightarrow> 'a list list list list \<Rightarrow> 's \<times> real list \<Rightarrow>
   py_error + 's \<times> real list" where
  "validation_loop g p [] (st, val_loss) = Inr (st, val_loss)"
| "validation_loop g p (xy # rest) (st, val_loss) =
     (case xy of
        [x, y] \<Rightarrow>
          (let (batch_loss, st') = eval_run g p x y st
           in validation_loop g p rest (st', val_loss @ [batch_loss]))
      | _ \<Rightarrow> Inl ValueError)"

fun batch_loop ::
  "('p, 's, 'a) graph \<Rightarrow> 'a list list \<Rightarrow> 'a list list \<Rightarrow> nat \<Rightarrow> int \<Rightarrow> int \<Rightarrow> int \<Rightarrow> nat \<Rightarrow>
   (nat \<times> 'a list list list) list \<Rightarrow> ('p, 's) training \<Rightarrow> py_error + ('p, 's) training" where
  "batch_loop g val_x val_y num_steps save_every_n n_batches iterations e [] t = Inr t"
| "batch_loop g val_x val_y num_steps save_every_n n_batches iterations e ((b, xy) # rest) t =
     (case xy of
        [x, y] \<Rightarrow>
          (let iteration = int e * n_batches + int b;
               (batch_loss, st', p') = train_run g (session t) x y (new_state t);
               t1 = t\<lparr>session := p', new_state := st', loss := loss t + batch_loss,
                      fed := fed t @ [(iteration, new_state t, st')]\<rparr>
           in if save_every_n = 0 then Inl ZeroDivisionError
              else if iteration mod save_every_n = 0 \<or> iteration = iterations then
                (case get_batch [val_x, val_y] num_steps of
                   Inl err \<Rightarrow> Inl err
                 | Inr vbs \<Rightarrow>
                     (case validation_loop g p' vbs (zero_state g, []) of
                        Inl err \<Rightarrow> Inl err
                      | Inr (st'', val_loss) \<Rightarrow>
                          batch_loop g val_x val_y num_steps save_every_n n_batches iterations e rest
                            (t1\<lparr>new_state := st'',
                                saved := saved t1 @ [(iteration, val_loss)]\<rparr>)))
              else batch_loop g val_x val_y num_steps save_every_n n_batches iterations e rest t1)
      | _ \<Rightarrow> Inl ValueError)"

fun epoch_loop ::
  "('p, 's, 'a) graph \<Rightarrow> 'a list list \<Rightarrow> 'a list list \<Rightarrow> 'a list list \<Rightarrow> 'a list list \<Rightarrow>
   nat \<Rightarrow> int \<Rightarrow> int \<Rightarrow> int \<Rightarrow> nat list \<Rightarrow> ('p, 's) training \<Rightarrow> py_error + ('p, 's) training" where
  "epoch_loop g train_x train_y val_x val_y num_steps save_every_n n_batches iterations [] t = Inr t"
| "epoch_loop g train_x train_y val_x val_y num_steps save_every_n n_batches iterations (e # es) t =
     (case get_batch [train_x, train_y] num_steps of
        Inl err \<Rightarrow> Inl err
      | Inr bs \<Rightarrow>
          (case batch_loop g val_x val_y num_steps save_every_n n_batches iterations e
                  (zip [1..<Suc (length bs)] bs) (t\<lparr>new_state := zero_state g, loss := 0\<rparr>) of
             Inl err \<Rightarrow> Inl err
           | Inr t' \<Rightarrow>
               epoch_loop g train_x train_y val_x val_y num_steps save_every_n n_batches
                 iterations es t'))"

definition train ::
  "('p, 's, 'a) graph \<Rightarrow> 'p \<Rightarrow> 'a list list \<Rightarrow> 'a list list \<Rightarrow> 'a list list \<Rightarrow> 'a list list \<Rightarrow>
   nat \<Rightarrow> nat \<Rightarrow> int \<Rightarrow> py_error + ('p, 's) training" where
  "train g p0 train_x train_y val_x val_y num_steps epochs save_every_n =
     (if num_steps = 0 then Inl ZeroDivisionError
      else
        let n_batches = py_int (real (snd (shape train_x)) / real num_steps);
            iterations = n_batches * int epochs
        in epoch_loop g train_x train_y val_x val_y num_steps save_every_n n_batches iterations
             [0..<epochs]
             \<lparr>session = p0, new_state = zero_state g, loss = 0, fed = [], saved = []\<rparr>)"

section \<open>Sampling\<close>

text \<open>
  \<^verbatim>\<open>
  def pick_top_n(preds, vocab_size, top_n=5):
      p = np.squeeze(preds)
      p[np.argsort(p)[:-top_n]] = 0
      p = p / np.sum(p)
      c = np.random.choice(vocab_size, 1, p=p)[0]
      return c
  \<close>
  \<open>preds\<close> is the \<open>1 \<times> V\<close> array of predictions, given by its row. \<^verbatim>\<open>np.squeeze\<close>
  returns a view on the same memory, so the indexed assignment writes into the caller's
  array, while \<^verbatim>\<open>p = p / np.sum(p)\<close> binds \<open>p\<close> to a new array. The model returns the
  contents of the caller's array after the call together with the result. For \<open>V = 1\<close>
  the squeezed view has no axis left and the indexed assignment raises IndexError before
  anything is written.

  \<^verbatim>\<open>np.argsort\<close> returns a permutation of the indices in ascending order of value;
  which of two equal values comes first depends on NumPy's sorting routine and is not
  fixed by its contract. The routine is therefore the parameter \<open>np_argsort\<close> of the model,
  and \<open>is_argsort p idx\<close> says that \<open>idx\<close> is an admissible result of \<^verbatim>\<open>np.argsort(p)\<close>.
  The theorems hold for every admissible result. \<open>stable_argsort\<close> is the admissible
  result that keeps equal values in index order; it serves to evaluate the model at
  concrete inputs.

  \<^verbatim>\<open>np.random.choice(a, 1, p=p)\<close> checks \<open>a\<close> and \<open>p\<close>, draws one uniform number \<open>u\<close>
  from \<open>[0, 1)\<close> and returns the position of \<open>u\<close> in the normalised cumulative sums of
  \<open>p\<close> (\<^verbatim>\<open>cdf.searchsorted(u, side='right')\<close>: the number of entries \<open>\<le> u\<close> of the
  ascending \<open>cdf\<close>). The draw \<open>u\<close> is an argument of the model. Probabilities are reals:
  the sum test of \<^verbatim>\<open>np.random.choice\<close> is exact in the model, where NumPy allows a
  tolerance, and a division by a zero sum yields values that the test rejects.
\<close>

definition is_argsort :: "real list \<Rightarrow> nat list \<Rightarrow> bool" where
  "is_argsort p idx \<longleftrightarrow>
     length idx = length p \<and> distinct idx \<and> list_all (\<lambda>i. i < length p) idx \<and>
     sorted (map (\<lambda>i. p ! i) idx)"

definition stable_argsort :: "real list \<Rightarrow> nat list" where
  "stable_argsort p = sort_key (\<lambda>i. p ! i) [0..<length p]"

definition assign_zero :: "nat list \<Rightarrow> real list \<Rightarrow> real list" where
  "assign_zero idx p = fold (\<lambda>i q. q[i := 0]) idx p"

fun cumsum_from :: "real \<Rightarrow> real list \<Rightarrow> real list" where
  "cumsum_from a [] = []"
| "cumsum_from a (x # xs) = (a + x) # cumsum_from (a + x) xs"

definition searchsorted_right :: "real list \<Rightarrow> real \<Rightarrow> nat" where
  "searchsorted_right cdf u = length (takeWhile (\<lambda>c. c \<le> u) cdf)"

definition np_random_choice :: "nat \<Rightarrow> real list \<Rightarrow> real \<Rightarrow> py_error + nat" where
  "np_random_choice a p u =
     (if a = 0 then Inl ValueError
      else if length p \<noteq> a then Inl ValueError
      else if list_ex (\<lambda>x. x < 0) p then Inl ValueError
      else if sum_list p \<noteq> 1 then Inl ValueError
      else
        let cdf = cumsum_from 0 p;
            cdf = map (\<lambda>c. c / last cdf) cdf
        in Inr (searchsorted_right cdf u))"

definition pick_top_n ::
  "(real list \<Rightarrow> nat list) \<Rightarrow> real list \<Rightarrow> nat \<Rightarrow> int \<Rightarrow> real \<Rightarrow>
   real list \<times> (py_error + nat)" where
  "pick_top_n np_argsort preds vocab_size top_n u =
     (if length preds = 1 then (preds, Inl IndexError)
      else
        let p = assign_zero (slice_to (- top_n) (np_argsort preds)) preds;
            q = map (\<lambda>v. v / sum_list p) p
        in (p, np_random_choice vocab_size q u))"

text \<open>
  For stating what \<open>pick_top_n\<close> keeps: \<open>kept_indices\<close> is \<^verbatim>\<open>np.argsort(p)[-top_n:]\<close>,
  the indices that the assignment \<^verbatim>\<open>p[np.argsort(p)[:-top_n]] = 0\<close> leaves untouched.
\<close>

definition kept_indices :: "(real list \<Rightarrow> nat list) \<Rightarrow> real list \<Rightarrow> int \<Rightarrow> nat list" where
  "kept_indices np_argsort preds top_n = slice_from (- top_n) (np_argsort preds)"

text \<open>
  For comparing \<open>pick_top_n\<close> with the specification of top-N-restricted sampling, in
  the specification's words: "zero out all probabilities except the \<open>top_n\<close> largest,
  renormalize the remainder to sum to 1, draw one symbol from this truncated categorical
  distribution". \<open>top_n_distribution kept preds\<close> is that distribution for the kept
  symbols \<open>kept\<close>, written from \<open>preds\<close> alone. \<open>categorical_draw q u c\<close> says that \<open>c\<close> is
  the symbol that the uniform number \<open>u\<close> selects from the distribution \<open>q\<close>: \<open>u\<close> lies in
  the interval of width \<open>q ! c\<close> that starts at the sum of the probabilities of the
  symbols before \<open>c\<close>. For \<open>u\<close> uniform in \<open>[0, 1)\<close> each symbol \<open>c\<close> is then selected with
  probability \<open>q ! c\<close>.
\<close>

definition top_n_distribution :: "nat list \<Rightarrow> real list \<Rightarrow> real list" where
  "top_n_distribution kept preds =
     map (\<lambda>i. if i \<in> set kept then preds ! i / sum_list (map (\<lambda>k. preds ! k) kept) else 0)
       [0..<length preds]"

definition categorical_draw :: "real list \<Rightarrow> real \<Rightarrow> nat \<Rightarrow> bool" where
  "categorical_draw q u c \<longleftrightarrow>
     c < length q \<and> sum_list (take c q) \<le> u \<and> u < sum_list (take (Suc c) q)"

text \<open>
  \<^verbatim>\<open>
  def sample(checkpoint, n_samples, lstm_size, vocab_size, prime="The "):
      prime = "Far"
      samples = [c for c in prime]
      model = build_rnn(vocab_size, lstm_size=lstm_size, sampling=True)
      saver = tf.train.Saver()
      with tf.Session() as sess:
          saver.restore(sess, checkpoint)
          new_state = sess.run(model.initial_state)
          for c in prime:
              x = np.zeros((1, 1))
              x[0,0] = vocab_to_int[c]
              feed = {model.inputs: x, model.keep_prob: 1., model.initial_state: new_state}
              preds, new_state = sess.run([model.preds, model.final_state], feed_dict=feed)
          c = pick_top_n(preds, len(vocab))
          samples.append(int_to_vocab[c])
          for i in range(n_samples):
              x[0,0] = c
              feed = {model.inputs: x, model.keep_prob: 1., model.initial_state: new_state}
              preds, new_state = sess.run([model.preds, model.final_state], feed_dict=feed)
              c = pick_top_n(preds, len(vocab))
              samples.append(int_to_vocab[c])
      return ''.join(samples)
  \<close>
  Building the graph and restoring the checkpoint is the parameter \<open>restore\<close>; it gives
  the network: its zero state and its single-step run from an input id and a state to the
  predictions and the next state. The globals \<^verbatim>\<open>vocab_to_int\<close>, \<^verbatim>\<open>int_to_vocab\<close> and
  \<^verbatim>\<open>len(vocab)\<close> are the parameters \<open>v2i\<close>, \<open>i2v\<close> and \<open>len_vocab\<close>; \<open>us\<close> is the
  sequence of uniform draws of the random generator, one for each call of
  \<^verbatim>\<open>pick_top_n\<close>, and \<open>np_argsort\<close> is the sorting routine those calls use.
\<close>

record 's network =
  initial_state :: 's
  run :: "nat \<Rightarrow> 's \<Rightarrow> real list \<times> 's"

fun prime_loop ::
  "'s network \<Rightarrow> (char \<rightharpoonup> nat) \<Rightarrow> string \<Rightarrow> real list option \<times> 's \<Rightarrow>
   py_error + real list option \<times> 's" where
  "prime_loop net v2i [] ps = Inr ps"
| "prime_loop net v2i (c # cs) (preds, state) =
     (case v2i c of
        None \<Rightarrow> Inl KeyError
      | Some x \<Rightarrow>
          (let (preds', state') = run net x state
           in prime_loop net v2i cs (Some preds', state')))"

fun sample_loop ::
  "'s network \<Rightarrow> (real list \<Rightarrow> nat list) \<Rightarrow> (nat \<rightharpoonup> char) \<Rightarrow> nat \<Rightarrow> (nat \<Rightarrow> real) \<Rightarrow>
   nat list \<Rightarrow> nat \<times> 's \<times> string \<Rightarrow> py_error + string" where
  "sample_loop net np_argsort i2v len_vocab us [] (c, state, samples) = Inr samples"
| "sample_loop net np_argsort i2v len_vocab us (i # rest) (c, state, samples) =
     (let (preds, state') = run net c state
      in case snd (pick_top_n np_argsort preds len_vocab 5 (us (Suc i))) of
           Inl e \<Rightarrow> Inl e
         | Inr c' \<Rightarrow>
             (case i2v c' of
                None \<Rightarrow> Inl KeyError
              | Some ch \<Rightarrow>
                  sample_loop net np_argsort i2v len_vocab us rest
                    (c', state', samples @ [ch])))"

definition sample ::
  "('c \<Rightarrow> nat \<Rightarrow> nat \<Rightarrow> py_error + 's network) \<Rightarrow> (real list \<Rightarrow> nat list) \<Rightarrow>
   (char \<rightharpoonup> nat) \<Rightarrow> (nat \<rightharpoonup> char) \<Rightarrow> nat \<Rightarrow> (nat \<Rightarrow> real) \<Rightarrow>
   'c \<Rightarrow> int \<Rightarrow> nat \<Rightarrow> nat \<Rightarrow> string \<Rightarrow> py_error + string" where
  "sample restore np_argsort v2i i2v len_vocab us checkpoint n_samples lstm_size vocab_size
     prime_arg =
     (let prime = ''Far'';
          samples = prime
      in case restore checkpoint lstm_size vocab_size of
           Inl e \<Rightarrow> Inl e
         | Inr net \<Rightarrow>
      (case prime_loop net v2i prime (None, initial_state net) of
           Inl e \<Rightarrow> Inl e
         | Inr (None, state) \<Rightarrow> Inl UnboundLocalError
         | Inr (Some preds, state) \<Rightarrow>
      (case snd (pick_top_n np_argsort preds len_vocab 5 (us 0)) of
           Inl e \<Rightarrow> Inl e
         | Inr c \<Rightarrow>
      (case i2v c of
           None \<Rightarrow> Inl KeyError
         | Some ch \<Rightarrow>
             sample_loop net np_argsort i2v len_vocab us [0..<nat n_samples]
               (c, state, samples @ [ch])))))"

section \<open>Properties of the slicing primitives\<close>

lemma py_int_divide: "py_int (real a / real b) = int (a div b)"
  by (simp add: py_int_def floor_divide_of_nat_eq)

lemma slice_to_from: "slice_to k xs @ slice_from k xs = xs"
  by (simp add: slice_to_def slice_from_def)

lemma slice_to_nat: "slice_to (int k) xs = take k xs"
  by (simp add: slice_to_def py_index_def min_def)

lemma slice_from_nat: "slice_from (int k) xs = drop k xs"
  by (simp add: slice_from_def py_index_def min_def)

lemma py_slice_nat: "py_slice (int a) (int b) xs = drop a (take b xs)"
  by (simp add: py_slice_def py_index_def min_def)

lemma np_split_Inr:
  "np_split xs k = Inr rows \<Longrightarrow>
     0 < k \<and> rows = map (\<lambda>i. take (length xs div k) (drop (i * (length xs div k)) xs)) [0..<k]"
  by (auto simp: np_split_def split: if_splits)

lemma np_stack_Inr: "np_stack rows = Inr m \<Longrightarrow> m = rows"
  by (auto simp: np_stack_def split: list.splits if_splits)

lemma np_stack_lanes:
  "0 < k \<Longrightarrow> np_stack (map (\<lambda>i. take w (drop (i * w) xs)) [0..<k]) =
     (if \<forall>i<k. length (take w (drop (i * w) xs)) = length (take w xs)
      then Inr (map (\<lambda>i. take w (drop (i * w) xs)) [0..<k]) else Inl ValueError)"
  apply (cases k)
   apply simp
  apply (simp add: np_stack_def upt_conv_Cons list_all_iff del: upt_Suc)
  apply (auto simp: less_Suc_eq_0_disj)
  done

lemma lanes_ok:
  assumes "0 < B" "length xs = B * w"
  shows "np_split xs B = Inr (map (\<lambda>i. take w (drop (i * w) xs)) [0..<B])"
    and "np_stack (map (\<lambda>i. take w (drop (i * w) xs)) [0..<B]) = Inr (map (\<lambda>i. take w (drop (i * w) xs)) [0..<B])"
proof -
  show "np_split xs B = Inr (map (\<lambda>i. take w (drop (i * w) xs)) [0..<B])"
    using assms by (simp add: np_split_def)
  have "\<forall>i<B. length (take w (drop (i * w) xs)) = length (take w xs)"
  proof (intro allI impI)
    fix i assume "i < B"
    then have "Suc i \<le> B" by simp
    then have "Suc i * w \<le> B * w" by (rule mult_le_mono1)
    then have "w \<le> B * w - i * w" by simp
    moreover have "w \<le> B * w" using assms(1) by simp
    ultimately show "length (take w (drop (i * w) xs)) = length (take w xs)"
      using assms(2) by simp
  qed
  then show "np_stack (map (\<lambda>i. take w (drop (i * w) xs)) [0..<B]) = Inr (map (\<lambda>i. take w (drop (i * w) xs)) [0..<B])"
    using assms(1) by (simp add: np_stack_lanes)
qed

lemma split_data_unfold:
  assumes "0 < B" "0 < S"
  shows "split_data chars B S f =
     (case np_split (drop 1 (take (length chars div (B * S) * (B * S) + 1) chars)) B of
        Inl e \<Rightarrow> Inl e
      | Inr ys \<Rightarrow>
     (case np_stack ys of
        Inl e \<Rightarrow> Inl e
      | Inr Y \<Rightarrow>
          Inr (map (slice_to (py_int (real (length chars div (B * S)) * f) * int S))
                 (map (\<lambda>i. take (length chars div (B * S) * S)
                        (drop (i * (length chars div (B * S) * S))
                           (take (length chars div (B * S) * (B * S)) chars))) [0..<B]),
               map (slice_to (py_int (real (length chars div (B * S)) * f) * int S)) Y,
               map (slice_from (py_int (real (length chars div (B * S)) * f) * int S))
                 (map (\<lambda>i. take (length chars div (B * S) * S)
                        (drop (i * (length chars div (B * S) * S))
                           (take (length chars div (B * S) * (B * S)) chars))) [0..<B]),
               map (slice_from (py_int (real (length chars div (B * S)) * f) * int S)) Y)))"
proof -
  let ?n = "length chars div (B * S)"
  let ?x = "take (?n * (B * S)) chars"
  let ?y = "drop 1 (take (?n * (B * S) + 1) chars)"
  have x: "slice_to (py_int (real (length chars) / real (B * S)) * int (B * S)) chars = ?x"
    unfolding py_int_divide by (metis of_nat_mult slice_to_nat)
  have y: "py_slice 1 (py_int (real (length chars) / real (B * S)) * int (B * S) + 1) chars = ?y"
    unfolding py_int_divide by (metis of_nat_mult of_nat_add of_nat_1 py_slice_nat)
  have "?n * (B * S) \<le> length chars" by simp
  then have "length ?x = ?n * (B * S)" by (simp only: length_take min_absorb2)
  then have lx: "length ?x = B * (?n * S)" by (simp only: ac_simps)
  note X = lanes_ok[OF assms(1) lx]
  have nz: "B * S \<noteq> 0" using assms by simp
  show ?thesis
    apply (simp only: split_data_def Let_def x y nz if_False)
    apply (simp only: X sum.case py_int_divide of_int_of_nat_eq)
    done
qed

lemma split_data_success:
  assumes "0 < B" "0 < S" "length chars div (B * S) * (B * S) < length chars"
  shows "split_data chars B S f =
     Inr (map (slice_to (py_int (real (length chars div (B * S)) * f) * int S))
            (map (\<lambda>i. take (length chars div (B * S) * S)
                   (drop (i * (length chars div (B * S) * S))
                      (take (length chars div (B * S) * (B * S)) chars))) [0..<B]),
          map (slice_to (py_int (real (length chars div (B * S)) * f) * int S))
            (map (\<lambda>i. take (length chars div (B * S) * S)
                   (drop (i * (length chars div (B * S) * S))
                      (drop 1 (take (length chars div (B * S) * (B * S) + 1) chars)))) [0..<B]),
          map (slice_from (py_int (real (length chars div (B * S)) * f) * int S))
            (map (\<lambda>i. take (length chars div (B * S) * S)
                   (drop (i * (length chars div (B * S) * S))
                      (take (length chars div (B * S) * (B * S)) chars))) [0..<B]),
          map (slice_from (py_int (real (length chars div (B * S)) * f) * int S))
            (map (\<lambda>i. take (length chars div (B * S) * S)
                   (drop (i * (length chars div (B * S) * S))
                      (drop 1 (take (length chars div (B * S) * (B * S) + 1) chars)))) [0..<B]))"
proof -
  let ?n = "length chars div (B * S)"
  let ?y = "drop 1 (take (?n * (B * S) + 1) chars)"
  have ly: "length ?y = B * (?n * S)" using assms(3) by (simp add: ac_simps)
  note Y = lanes_ok[OF assms(1) ly]
  show ?thesis
    by (simp only: split_data_unfold[OF assms(1,2)] Y sum.case)
qed

lemma split_data_exact_multiple:
  assumes "2 \<le> B" "0 < S" "0 < length chars" "length chars mod (B * S) = 0"
  shows "split_data chars B S f = Inl ValueError"
proof -
  let ?n = "length chars div (B * S)"
  let ?y = "drop 1 (take (?n * (B * S) + 1) chars)"
  have B0: "0 < B" using assms(1) by simp
  have len: "?n * (B * S) = length chars" using assms(4) by (simp add: mod_eq_0_iff_dvd)
  have ly: "length ?y = length chars - 1" using len by simp
  obtain m where m: "length chars = B * m" using len by (metis mult.assoc mult.commute)
  with assms(3) have "0 < m" by (cases m) auto
  then obtain m' where m': "m = Suc m'" by (cases m) auto
  have "length chars - 1 = (B - 1) + B * m'" using m m' assms(1) by (simp add: algebra_simps)
  then have "(length chars - 1) mod B = (B - 1) mod B" by (metis mod_mult_self2)
  also have "\<dots> = B - 1" using assms(1) by simp
  finally have "length ?y mod B \<noteq> 0" using ly assms(1) by simp
  then have "np_split ?y B = Inl ValueError" using B0 by (simp add: np_split_def)
  then show ?thesis
    by (simp only: split_data_unfold[OF B0 assms(2)] sum.case)
qed

lemma lane_block:
  assumes "length xs = B * w" and "i < B"
  shows "length (take w (drop (i * w) xs)) = w \<and>
         (\<forall>j<w. take w (drop (i * w) xs) ! j = xs ! (i * w + j))"
proof -
  from assms(2) have "Suc i \<le> B" by simp
  then have "Suc i * w \<le> B * w" by (rule mult_le_mono1)
  then have "i * w + w \<le> length xs" using assms(1) by simp
  then show ?thesis by simp
qed

lemma split_data_Inr_pos:
  "split_data chars B S f = Inr r \<Longrightarrow> 0 < B \<and> 0 < S"
  by (auto simp: split_data_def Let_def split: if_splits)

section \<open>Properties of \<open>split_data\<close>\<close>

text \<open>
  When the stream holds at least one token beyond the \<open>n_batches * batch_size * num_steps\<close>
  tokens kept for the inputs, \<open>split_data\<close> returns, and the result is given in closed form.
  When the length is a positive exact multiple of \<open>batch_size * num_steps\<close> and
  \<open>batch_size \<ge> 2\<close>, the target stream is one token short and \<^verbatim>\<open>np.split\<close> raises.
\<close>

text \<open>
  Claim C2, at the input \<^verbatim>\<open>split_data([0, 1, 2, 3], 2, 2)\<close>: the stream has exactly
  \<open>B * S = 4\<close> tokens, so the claim promises a result of the stated shapes. The code
  takes \<^verbatim>\<open>y = chars[1:5]\<close>, which has three tokens, and \<^verbatim>\<open>np.split(y, 2)\<close> raises
  ValueError.
\<close>

theorem split_data_exact_length_raises:
  "2 * 2 \<le> length [0, 1, 2, 3 :: nat] \<and>
   split_data [0, 1, 2, 3 :: nat] 2 2 (9 / 10) = Inl ValueError"
  by code_simp

text \<open>
  Claim C5: when \<open>split_data\<close> returns, all four matrices have \<open>B\<close> rows, and the training
  columns of lane \<open>i\<close> followed by its validation columns are exactly the tokens at positions
  \<open>[i * n * S, (i + 1) * n * S)\<close> of the stream truncated to \<open>n * B * S\<close> tokens, where
  \<open>n = length chars div (B * S)\<close>: lanes are consecutive blocks, not an interleaving. The
  target lanes are, in the same way, the consecutive blocks of the target stream
  \<^verbatim>\<open>chars[1 : n*B*S + 1]\<close>.
\<close>

theorem split_data_lane_reconstruction:
  assumes "split_data chars B S f = Inr (train_x, train_y, val_x, val_y)" and "i < B"
  shows "length train_x = B \<and> length val_x = B \<and>
         length train_y = B \<and> length val_y = B \<and>
         train_x ! i @ val_x ! i =
           take (length chars div (B * S) * S)
             (drop (i * (length chars div (B * S) * S))
                (take (length chars div (B * S) * (B * S)) chars)) \<and>
         length (train_x ! i @ val_x ! i) = length chars div (B * S) * S \<and>
         (\<forall>j < length chars div (B * S) * S.
            (train_x ! i @ val_x ! i) ! j = chars ! (i * (length chars div (B * S) * S) + j)) \<and>
         train_y ! i @ val_y ! i =
           take (length (py_slice 1 (int (length chars div (B * S) * (B * S)) + 1) chars) div B)
             (drop (i * (length (py_slice 1 (int (length chars div (B * S) * (B * S)) + 1) chars) div B))
                (py_slice 1 (int (length chars div (B * S) * (B * S)) + 1) chars))"
proof -
  let ?n = "length chars div (B * S)"
  let ?w = "?n * S"
  let ?x = "take (?n * (B * S)) chars"
  let ?y = "drop 1 (take (?n * (B * S) + 1) chars)"
  let ?k = "py_int (real ?n * f) * int S"
  let ?X = "map (\<lambda>i. take ?w (drop (i * ?w) ?x)) [0..<B]"
  from split_data_Inr_pos[OF assms(1)] have pos: "0 < B" "0 < S" by simp_all
  have yy: "py_slice 1 (int (?n * (B * S)) + 1) chars = ?y"
    by (metis of_nat_add of_nat_1 py_slice_nat)
  from assms(1) obtain ys Y where
    ys: "np_split ?y B = Inr ys" and Y: "np_stack ys = Inr Y" and
    tx: "train_x = map (slice_to ?k) ?X" and vx: "val_x = map (slice_from ?k) ?X" and
    ty: "train_y = map (slice_to ?k) Y" and vy: "val_y = map (slice_from ?k) Y"
    unfolding split_data_unfold[OF pos]
    by (auto split: sum.splits)
  from np_split_Inr[OF ys] np_stack_Inr[OF Y]
  have Yeq: "Y = map (\<lambda>i. take (length ?y div B) (drop (i * (length ?y div B)) ?y)) [0..<B]"
    by simp
  have lens: "length train_x = B" "length val_x = B" "length train_y = B" "length val_y = B"
    using tx vx ty vy Yeq by simp_all
  have xi: "train_x ! i @ val_x ! i = take ?w (drop (i * ?w) ?x)"
    using assms(2) tx vx by (simp add: slice_to_from)
  have yi: "train_y ! i @ val_y ! i = take (length ?y div B) (drop (i * (length ?y div B)) ?y)"
    using assms(2) ty vy Yeq by (simp add: slice_to_from)
  have "?n * (B * S) \<le> length chars" by simp
  then have lx: "length ?x = B * ?w" by (simp only: length_take min_absorb2 ac_simps)
  note blk = lane_block[OF lx assms(2)]
  have len: "length (take ?w (drop (i * ?w) ?x)) = ?w"
    using blk by (rule conjunct1)
  have nth: "\<forall>j < ?w. take ?w (drop (i * ?w) ?x) ! j = chars ! (i * ?w + j)"
  proof (intro allI impI)
    fix j assume j: "j < ?w"
    from assms(2) have "Suc i \<le> B" by simp
    then have "Suc i * ?w \<le> B * ?w" by (rule mult_le_mono1)
    with j have "i * ?w + j < B * ?w" by simp
    then have "i * ?w + j < ?n * (B * S)" by (simp only: ac_simps)
    then have "?x ! (i * ?w + j) = chars ! (i * ?w + j)" by (rule nth_take)
    with blk j show "take ?w (drop (i * ?w) ?x) ! j = chars ! (i * ?w + j)" by simp
  qed
  show ?thesis
    unfolding yy using lens xi yi len nth by simp
qed

theorem split_data_lane_reconstruction_witness:
  "split_data [0, 1, 2, 3, 4, 5, 6, 7, 8, 9, 10, 11, 12 :: nat] 2 2 (1 / 2) =
     Inr ([[0, 1], [6, 7]], [[1, 2], [7, 8]], [[2, 3, 4, 5], [8, 9, 10, 11]],
          [[3, 4, 5, 6], [9, 10, 11, 12]])
   \<and> (1 :: nat) < 2
   \<and> [[0, 1], [6, 7]] ! 1 @ [[2, 3, 4, 5], [8, 9, 10, 11]] ! 1 =
       take (length [0, 1, 2, 3, 4, 5, 6, 7, 8, 9, 10, 11, 12 :: nat] div (2 * 2) * 2)
         (drop (1 * (length [0, 1, 2, 3, 4, 5, 6, 7, 8, 9, 10, 11, 12 :: nat] div (2 * 2) * 2))
            (take (length [0, 1, 2, 3, 4, 5, 6, 7, 8, 9, 10, 11, 12 :: nat] div (2 * 2) * (2 * 2))
               [0, 1, 2, 3, 4, 5, 6, 7, 8, 9, 10, 11, 12 :: nat]))"
proof -
  have h: "split_data [0, 1, 2, 3, 4, 5, 6, 7, 8, 9, 10, 11, 12 :: nat] 2 2 (1 / 2) =
     Inr ([[0, 1], [6, 7]], [[1, 2], [7, 8]], [[2, 3, 4, 5], [8, 9, 10, 11]],
          [[3, 4, 5, 6], [9, 10, 11, 12]])"
    by code_simp
  have i: "(1 :: nat) < 2" by simp
  from split_data_lane_reconstruction[OF h i] h i show ?thesis by blast
qed

text \<open>
  Claim C7, as stated, fails: for a stream shorter than \<open>B * S\<close> the code raises nothing
  and returns four matrices with no columns.
\<close>

theorem split_data_short_stream_returns:
  "length [0, 1, 2 :: nat] div (2 * 2) = 0 \<and>
   split_data [0, 1, 2 :: nat] 2 2 (9 / 10) = Inr ([[], []], [[], []], [[], []], [[], []])"
  by code_simp

text \<open>
  Claim C7, amended: for positive \<open>B\<close> and \<open>S\<close> and a stream with
  \<open>length chars div (B * S) = 0\<close>, \<open>split_data\<close> returns four \<open>B \<times> 0\<close> matrices.
\<close>

theorem split_data_no_full_batch:
  assumes "0 < B" and "0 < S" and "length chars div (B * S) = 0"
  shows "split_data chars B S f =
           Inr (replicate B [], replicate B [], replicate B [], replicate B [])"
proof -
  have y: "drop 1 (take (length chars div (B * S) * (B * S) + 1) chars) = []"
    using assms(3) by simp
  have l0: "length ([]::'a list) = B * 0" by simp
  note Y = lanes_ok[OF assms(1) l0]
  have r: "map (\<lambda>i. []) [0..<B] = replicate B []" by (simp add: map_replicate_const)
  show ?thesis
    apply (simp only: split_data_unfold[OF assms(1,2)] y Y sum.case)
    apply (simp add: assms(3) slice_to_def slice_from_def r)
    done
qed

theorem split_data_no_full_batch_witness:
  "(0 :: nat) < 2 \<and> (0 :: nat) < 2 \<and> length [0, 1, 2 :: nat] div (2 * 2) = 0 \<and>
   split_data [0, 1, 2 :: nat] 2 2 (9 / 10) =
     Inr (replicate 2 [], replicate 2 [], replicate 2 [], replicate 2 [])"
proof -
  have b: "(0 :: nat) < 2" by simp
  have n: "length [0, 1, 2 :: nat] div (2 * 2) = 0" by simp
  from split_data_no_full_batch[OF b b n, of "9 / 10"] b n show ?thesis by blast
qed

section \<open>Properties of the vocabulary\<close>

lemma fold_v2i_notin:
  "c \<notin> set xs \<Longrightarrow> fold (\<lambda>(i, c) m. m(c \<mapsto> i)) (enumerate n xs) m c = m c"
  by (induction xs arbitrary: n m) auto

lemma fold_v2i_nth:
  "distinct xs \<Longrightarrow> j < length xs \<Longrightarrow>
     fold (\<lambda>(i, c) m. m(c \<mapsto> i)) (enumerate n xs) m (xs ! j) = Some (n + j)"
proof (induction xs arbitrary: n m j)
  case Nil
  then show ?case by simp
next
  case (Cons x xs)
  show ?case
  proof (cases j)
    case 0
    with Cons.prems have "x \<notin> set xs" by simp
    from fold_v2i_notin[OF this, of "Suc n" "m(x \<mapsto> n)"] 0 show ?thesis
      by (simp del: fun_upd_apply) simp
  next
    case (Suc j')
    with Cons.prems have "distinct xs" "j' < length xs" by simp_all
    from Cons.IH[OF this, of "Suc n" "m(x \<mapsto> n)"] Suc show ?thesis
      by (simp del: fun_upd_apply)
  qed
qed

lemma fold_v2i_dom:
  "dom (fold (\<lambda>(i, c) m. m(c \<mapsto> i)) (enumerate n xs) m) = dom m \<union> set xs"
  by (induction xs arbitrary: n m) auto

lemma fold_i2v_below:
  "k < n \<Longrightarrow> fold (\<lambda>(i, c) m. m(i \<mapsto> c)) (enumerate n xs) m k = m k"
  by (induction xs arbitrary: n m) auto

lemma fold_i2v_nth:
  "j < length xs \<Longrightarrow>
     fold (\<lambda>(i, c) m. m(i \<mapsto> c)) (enumerate n xs) m (n + j) = Some (xs ! j)"
proof (induction xs arbitrary: n m j)
  case Nil
  then show ?case by simp
next
  case (Cons x xs)
  show ?case
  proof (cases j)
    case 0
    have "n < Suc n" by simp
    from fold_i2v_below[OF this, of xs "m(n \<mapsto> x)"] 0 show ?thesis
      by (simp del: fun_upd_apply) simp
  next
    case (Suc j')
    with Cons.prems have "j' < length xs" by simp
    from Cons.IH[OF this, of "Suc n" "m(n \<mapsto> x)"] Suc show ?thesis
      by (simp del: fun_upd_apply)
  qed
qed

lemma fold_i2v_dom:
  "dom (fold (\<lambda>(i, c) m. m(i \<mapsto> c)) (enumerate n xs) m) = dom m \<union> {n..<n + length xs}"
  by (induction xs arbitrary: n m) auto

lemma vocab_to_int_nth:
  "distinct vocab \<Longrightarrow> j < length vocab \<Longrightarrow> vocab_to_int vocab (vocab ! j) = Some j"
  using fold_v2i_nth[of vocab j 0 Map.empty] by (simp add: vocab_to_int_def)

lemma int_to_vocab_nth:
  "j < length vocab \<Longrightarrow> int_to_vocab vocab j = Some (vocab ! j)"
  using fold_i2v_nth[of j vocab 0 Map.empty] by (simp add: int_to_vocab_def)

lemma dom_vocab_to_int: "dom (vocab_to_int vocab) = set vocab"
  by (simp add: vocab_to_int_def fold_v2i_dom)

lemma dom_int_to_vocab: "dom (int_to_vocab vocab) = {0..<length vocab}"
  by (simp add: int_to_vocab_def fold_i2v_dom)

lemma encode_total:
  "\<forall>c \<in> set cs. m c \<noteq> None \<Longrightarrow>
     \<exists>chars. encode m cs = Inr chars \<and> length chars = length cs \<and>
             (\<forall>k < length cs. m (cs ! k) = Some (chars ! k))"
proof (induction cs)
  case Nil
  then show ?case by simp
next
  case (Cons c cs)
  then obtain i where i: "m c = Some i" by auto
  from Cons obtain js where js: "encode m cs = Inr js" "length js = length cs"
    "\<forall>k < length cs. m (cs ! k) = Some (js ! k)" by auto
  have "\<forall>k < length (c # cs). m ((c # cs) ! k) = Some ((i # js) ! k)"
    using i js(3) by (auto simp: nth_Cons split: nat.splits)
  with i js show ?case by simp
qed

lemma vocab_index:
  assumes "c \<in> set vocab"
  obtains k where "k < length vocab" and "vocab ! k = c"
  using assms unfolding in_set_conv_nth by blast

lemma vocab_to_int_bij:
  assumes d: "distinct vocab"
  shows "bij_betw (\<lambda>c. the (vocab_to_int vocab c)) (set vocab) {0..<length vocab}"
proof (rule bij_betw_byWitness[where f' = "\<lambda>i. vocab ! i"])
  have key: "the (vocab_to_int vocab (vocab ! k)) = k" if "k < length vocab" for k
    using vocab_to_int_nth[OF d that] by simp
  show "\<forall>a \<in> set vocab. vocab ! the (vocab_to_int vocab a) = a"
  proof
    fix a assume "a \<in> set vocab"
    then obtain k where k: "k < length vocab" "vocab ! k = a" by (rule vocab_index)
    from key[OF k(1)] k(2) show "vocab ! the (vocab_to_int vocab a) = a" by simp
  qed
  show "\<forall>a' \<in> {0..<length vocab}. the (vocab_to_int vocab (vocab ! a')) = a'"
    using key by simp
  show "(\<lambda>c. the (vocab_to_int vocab c)) ` set vocab \<subseteq> {0..<length vocab}"
  proof
    fix i assume "i \<in> (\<lambda>c. the (vocab_to_int vocab c)) ` set vocab"
    then obtain a where a: "a \<in> set vocab" "i = the (vocab_to_int vocab a)" by blast
    from a(1) obtain k where k: "k < length vocab" "vocab ! k = a" by (rule vocab_index)
    from key[OF k(1)] k a(2) show "i \<in> {0..<length vocab}" by simp
  qed
  show "(!) vocab ` {0..<length vocab} \<subseteq> set vocab"
    by auto
qed

text \<open>
  Claim C8: for every corpus and every symbol \<open>s\<close> occurring in it,
  \<^verbatim>\<open>int_to_vocab[vocab_to_int[s]] == s\<close>; the keys of \<^verbatim>\<open>vocab_to_int\<close> are the observed
  symbols, the keys of \<^verbatim>\<open>int_to_vocab\<close> are the ids \<open>0, \<dots>, V - 1\<close> with
  \<open>V = card (set text)\<close>, the symbol-to-id mapping is a bijection between the two, and
  \<^verbatim>\<open>int_to_vocab\<close> is its inverse. This holds for whichever order the set is iterated in.
\<close>

theorem vocabulary_round_trip:
  assumes "is_set_iteration text vocab" and "s \<in> set text"
  shows "(\<exists>i. vocab_to_int vocab s = Some i \<and> i < card (set text) \<and>
              int_to_vocab vocab i = Some s) \<and>
         dom (vocab_to_int vocab) = set text \<and>
         dom (int_to_vocab vocab) = {0..<card (set text)} \<and>
         bij_betw (\<lambda>c. the (vocab_to_int vocab c)) (set text) {0..<card (set text)} \<and>
         (\<forall>i < card (set text). \<exists>c \<in> set text.
              int_to_vocab vocab i = Some c \<and> vocab_to_int vocab c = Some i)"
proof -
  from assms(1) have d: "distinct vocab" and sv: "set text = set vocab"
    by (simp_all add: is_set_iteration_def)
  have V: "card (set vocab) = length vocab"
    using d by (rule distinct_card)
  from assms(2) have "s \<in> set vocab" by (simp only: sv)
  then obtain j where j: "j < length vocab" "vocab ! j = s" by (rule vocab_index)
  have "vocab_to_int vocab s = Some j" using vocab_to_int_nth[OF d j(1)] by (simp only: j(2))
  moreover have "int_to_vocab vocab j = Some s" using int_to_vocab_nth[OF j(1)] by (simp only: j(2))
  ultimately have rt: "\<exists>i. vocab_to_int vocab s = Some i \<and> i < length vocab \<and>
      int_to_vocab vocab i = Some s"
    using j(1) by blast
  have inv: "\<forall>i < length vocab. \<exists>c \<in> set vocab.
              int_to_vocab vocab i = Some c \<and> vocab_to_int vocab c = Some i"
  proof (intro allI impI)
    fix i assume i: "i < length vocab"
    then have "vocab ! i \<in> set vocab" by (rule nth_mem)
    then show "\<exists>c \<in> set vocab. int_to_vocab vocab i = Some c \<and> vocab_to_int vocab c = Some i"
      using vocab_to_int_nth[OF d i] int_to_vocab_nth[OF i] by blast
  qed
  show ?thesis
    unfolding sv V
    using rt dom_vocab_to_int[of vocab] dom_int_to_vocab[of vocab] vocab_to_int_bij[OF d] inv
    by (intro conjI)
qed

theorem vocabulary_round_trip_witness:
  "is_set_iteration ''abcabcabc'' ''cab'' \<and> CHR ''b'' \<in> set ''abcabcabc'' \<and>
   vocab_to_int ''cab'' CHR ''b'' = Some 2 \<and> int_to_vocab ''cab'' 2 = Some CHR ''b'' \<and>
   bij_betw (\<lambda>c. the (vocab_to_int ''cab'' c)) (set ''abcabcabc'') {0..<card (set ''abcabcabc'')}"
proof -
  have h: "is_set_iteration ''abcabcabc'' ''cab''"
    by (auto simp: is_set_iteration_def)
  have m: "CHR ''b'' \<in> set ''abcabcabc''" by simp
  have v: "vocab_to_int ''cab'' CHR ''b'' = Some 2" "int_to_vocab ''cab'' 2 = Some CHR ''b''"
    by (simp_all add: vocab_to_int_def int_to_vocab_def)
  from vocabulary_round_trip[OF h m] h m v show ?thesis by blast
qed

text \<open>
  Claim C9, as stated, fails on the empty corpus: the set, both dictionaries and the token
  array are empty, and nothing is raised.
\<close>

theorem build_vocabulary_empty_corpus:
  "is_set_iteration ([] :: string) [] \<and> \<not> isl (build_vocabulary [] ([] :: string))"
  by (simp add: is_set_iteration_def build_vocabulary_def)

text \<open>
  Claim C9, amended: the vocabulary build raises for no corpus, empty or not. It returns both
  dictionaries and the token array, which has one id for each symbol of the corpus, and
  every id decodes to the symbol it encodes. (No lookup \<^verbatim>\<open>vocab_to_int[c]\<close> can raise
  KeyError, since every symbol of the corpus is a key.)
\<close>

theorem build_vocabulary_never_fails:
  assumes "is_set_iteration text vocab"
  shows "\<exists>chars. build_vocabulary vocab text = Inr (vocab_to_int vocab, int_to_vocab vocab, chars) \<and>
           length chars = length text \<and>
           (\<forall>k < length text. vocab_to_int vocab (text ! k) = Some (chars ! k) \<and>
                               int_to_vocab vocab (chars ! k) = Some (text ! k))"
proof -
  from assms have d: "distinct vocab" and sv: "set vocab = set text"
    by (simp_all add: is_set_iteration_def)
  have "\<forall>c \<in> set text. vocab_to_int vocab c \<noteq> None"
    using dom_vocab_to_int[of vocab] sv by auto
  from encode_total[OF this] obtain chars where c:
    "encode (vocab_to_int vocab) text = Inr chars" "length chars = length text"
    "\<forall>k < length text. vocab_to_int vocab (text ! k) = Some (chars ! k)" by blast
  have "\<forall>k < length text. int_to_vocab vocab (chars ! k) = Some (text ! k)"
  proof (intro allI impI)
    fix k assume k: "k < length text"
    then have "text ! k \<in> set vocab" using sv by simp
    then obtain j where j: "j < length vocab" "vocab ! j = text ! k"
      by (auto simp: in_set_conv_nth)
    with c(3) k vocab_to_int_nth[OF d j(1)] have "chars ! k = j" by simp
    with int_to_vocab_nth[OF j(1)] j(2) show "int_to_vocab vocab (chars ! k) = Some (text ! k)"
      by simp
  qed
  with c show ?thesis by (simp add: build_vocabulary_def)
qed

theorem build_vocabulary_never_fails_witness:
  "is_set_iteration ''abcabcabc'' ''cab'' \<and>
   build_vocabulary ''cab'' ''abcabcabc'' =
     Inr (vocab_to_int ''cab'', int_to_vocab ''cab'', [1, 2, 0, 1, 2, 0, 1, 2, 0]) \<and>
   length [1, 2, 0, 1, 2, 0, 1, 2, 0 :: nat] = length ''abcabcabc''"
proof -
  have h: "is_set_iteration ''abcabcabc'' ''cab''"
    by (auto simp: is_set_iteration_def)
  have e: "encode (vocab_to_int ''cab'') ''abcabcabc'' = Inr [1, 2, 0, 1, 2, 0, 1, 2, 0]"
    by (simp add: vocab_to_int_def)
  then have ev: "build_vocabulary ''cab'' ''abcabcabc'' =
     Inr (vocab_to_int ''cab'', int_to_vocab ''cab'', [1, 2, 0, 1, 2, 0, 1, 2, 0])"
    by (simp add: build_vocabulary_def)
  from build_vocabulary_never_fails[OF h] obtain chars where c:
    "build_vocabulary ''cab'' ''abcabcabc'' =
       Inr (vocab_to_int ''cab'', int_to_vocab ''cab'', chars)"
    "length chars = length ''abcabcabc''"
    by blast
  from c(1) ev have "chars = [1, 2, 0, 1, 2, 0, 1, 2, 0]" by simp
  with c(2) have n: "length [1, 2, 0, 1, 2, 0, 1, 2, 0 :: nat] = length ''abcabcabc''"
    by (simp only:)
  from h ev n show ?thesis by (intro conjI)
qed

section \<open>Properties of \<open>get_batch\<close>\<close>

lemma shape_rect:
  "X \<noteq> [] \<Longrightarrow> \<forall>r \<in> set X. length r = C \<Longrightarrow> shape X = (length X, C)"
  by (cases X) (auto simp: shape_def)

lemma window_slice:
  "py_slice (int (b * S)) (int ((b + 1) * S)) r = take S (drop (b * S) r)"
  unfolding py_slice_nat by (simp add: drop_take)

lemma window_row:
  assumes "length r = C" and "b < C div S" and "0 < S"
  shows "length (take S (drop (b * S) r)) = S \<and>
         (\<forall>j < S. take S (drop (b * S) r) ! j = r ! (b * S + j))"
proof -
  from assms(2) have "Suc b \<le> C div S" by simp
  then have "Suc b * S \<le> C div S * S" by (rule mult_le_mono1)
  also have "\<dots> \<le> C" by simp
  finally have "b * S + S \<le> length r" using assms(1) by simp
  then show ?thesis by simp
qed

text \<open>
  Claim C6: for lane matrices \<open>X\<close> and \<open>Y\<close> with the same \<open>B \<ge> 1\<close> rows and \<open>C\<close> columns
  and a window width \<open>S \<ge> 1\<close>, \<open>get_batch\<close> yields exactly \<open>C div S\<close> pairs of windows;
  the \<open>b\<close>-th pair holds columns \<open>[b * S, (b + 1) * S)\<close> of \<open>X\<close> and of \<open>Y\<close>, each of
  shape \<open>B \<times> S\<close>, so the windows come in left-to-right column order. The sequence is
  given in closed form from \<open>X\<close>, \<open>Y\<close> and \<open>S\<close> alone: the generator reads the arrays and
  writes nothing, so every call yields this same sequence.
\<close>

theorem get_batch_windows:
  assumes "0 < S" and "X \<noteq> []" and "length Y = length X"
    and "\<forall>r \<in> set X. length r = C" and "\<forall>r \<in> set Y. length r = C"
  shows "\<exists>ws. get_batch [X, Y] S = Inr ws \<and> length ws = C div S \<and>
           (\<forall>b < C div S.
              ws ! b = [map (\<lambda>r. take S (drop (b * S) r)) X,
                        map (\<lambda>r. take S (drop (b * S) r)) Y] \<and>
              shape (ws ! b ! 0) = (length X, S) \<and>
              shape (ws ! b ! 1) = (length X, S) \<and>
              (\<forall>i < length X. \<forall>j < S.
                 ws ! b ! 0 ! i ! j = X ! i ! (b * S + j) \<and>
                 ws ! b ! 1 ! i ! j = Y ! i ! (b * S + j)))"
proof -
  let ?win = "\<lambda>b. [map (\<lambda>r. take S (drop (b * S) r)) X, map (\<lambda>r. take S (drop (b * S) r)) Y]"
  have Y0: "Y \<noteq> []" using assms(2,3) by auto
  have gb: "get_batch [X, Y] S = Inr (map ?win [0..<C div S])"
    unfolding get_batch_def window_slice
    using assms(1) shape_rect[OF assms(2,4)]
    by (simp add: py_int_divide)
  have props: "shape (?win b ! 0) = (length X, S) \<and> shape (?win b ! 1) = (length X, S) \<and>
        (\<forall>i < length X. \<forall>j < S.
           ?win b ! 0 ! i ! j = X ! i ! (b * S + j) \<and> ?win b ! 1 ! i ! j = Y ! i ! (b * S + j))"
    if b: "b < C div S" for b
  proof -
    have wl: "length (take S (drop (b * S) r)) = S" if "length r = C" for r
      using window_row[OF that b assms(1)] by (rule conjunct1)
    have rx: "\<forall>r \<in> set (map (\<lambda>r. take S (drop (b * S) r)) X). length r = S"
    proof
      fix r' assume "r' \<in> set (map (\<lambda>r. take S (drop (b * S) r)) X)"
      then obtain r where "r \<in> set X" "r' = take S (drop (b * S) r)" by auto
      with assms(4) wl show "length r' = S" by blast
    qed
    have ry: "\<forall>r \<in> set (map (\<lambda>r. take S (drop (b * S) r)) Y). length r = S"
    proof
      fix r' assume "r' \<in> set (map (\<lambda>r. take S (drop (b * S) r)) Y)"
      then obtain r where "r \<in> set Y" "r' = take S (drop (b * S) r)" by auto
      with assms(5) wl show "length r' = S" by blast
    qed
    have sx: "shape (map (\<lambda>r. take S (drop (b * S) r)) X) = (length X, S)"
      using shape_rect[OF _ rx] assms(2) by simp
    have sy: "shape (map (\<lambda>r. take S (drop (b * S) r)) Y) = (length X, S)"
      using shape_rect[OF _ ry] Y0 assms(3) by simp
    have el: "\<forall>i < length X. \<forall>j < S.
           take S (drop (b * S) (X ! i)) ! j = X ! i ! (b * S + j) \<and>
           take S (drop (b * S) (Y ! i)) ! j = Y ! i ! (b * S + j)"
    proof (intro allI impI)
      fix i j assume i: "i < length X" and j: "j < S"
      have "length (X ! i) = C" using assms(4) i by simp
      moreover have "length (Y ! i) = C" using assms(3,5) i by simp
      ultimately show "take S (drop (b * S) (X ! i)) ! j = X ! i ! (b * S + j) \<and>
           take S (drop (b * S) (Y ! i)) ! j = Y ! i ! (b * S + j)"
        using window_row[OF _ b assms(1)] j by blast
    qed
    show ?thesis using sx sy el assms(3) by simp
  qed
  show ?thesis
    unfolding gb using props by simp
qed

theorem get_batch_windows_witness:
  "(0 :: nat) < 2 \<and> length [[0, 1, 2, 3, 4], [5, 6, 7, 8, 9 :: nat]] = 2 \<and>
   length [[1, 2, 3, 4, 5], [6, 7, 8, 9, 10 :: nat]] = length [[0, 1, 2, 3, 4], [5, 6, 7, 8, 9 :: nat]] \<and>
   map length [[0, 1, 2, 3, 4], [5, 6, 7, 8, 9 :: nat]] = [5, 5] \<and>
   map length [[1, 2, 3, 4, 5], [6, 7, 8, 9, 10 :: nat]] = [5, 5] \<and>
   get_batch [[[0, 1, 2, 3, 4], [5, 6, 7, 8, 9 :: nat]], [[1, 2, 3, 4, 5], [6, 7, 8, 9, 10]]] 2 =
     Inr [[[[0, 1], [5, 6]], [[1, 2], [6, 7]]], [[[2, 3], [7, 8]], [[3, 4], [8, 9]]]] \<and>
   length [[[[0, 1], [5, 6]], [[1, 2], [6, 7 :: nat]]], [[[2, 3], [7, 8]], [[3, 4], [8, 9]]]] = 5 div 2"
proof -
  have s: "(0 :: nat) < 2" by simp
  have x: "[[0, 1, 2, 3, 4], [5, 6, 7, 8, 9 :: nat]] \<noteq> []" by simp
  have x2: "length [[0, 1, 2, 3, 4], [5, 6, 7, 8, 9 :: nat]] = 2" by simp
  have l: "length [[1, 2, 3, 4, 5], [6, 7, 8, 9, 10 :: nat]] = length [[0, 1, 2, 3, 4], [5, 6, 7, 8, 9 :: nat]]"
    by simp
  have rx: "\<forall>r \<in> set [[0, 1, 2, 3, 4], [5, 6, 7, 8, 9 :: nat]]. length r = 5" by simp
  have ry: "\<forall>r \<in> set [[1, 2, 3, 4, 5], [6, 7, 8, 9, 10 :: nat]]. length r = 5" by simp
  have mx: "map length [[0, 1, 2, 3, 4], [5, 6, 7, 8, 9 :: nat]] = [5, 5]" by simp
  have my: "map length [[1, 2, 3, 4, 5], [6, 7, 8, 9, 10 :: nat]] = [5, 5]" by simp
  have ev: "get_batch [[[0, 1, 2, 3, 4], [5, 6, 7, 8, 9 :: nat]], [[1, 2, 3, 4, 5], [6, 7, 8, 9, 10]]] 2 =
     Inr [[[[0, 1], [5, 6]], [[1, 2], [6, 7]]], [[[2, 3], [7, 8]], [[3, 4], [8, 9]]]]"
    by code_simp
  from get_batch_windows[OF s x l rx ry] obtain ws where ws:
    "get_batch [[[0, 1, 2, 3, 4], [5, 6, 7, 8, 9 :: nat]], [[1, 2, 3, 4, 5], [6, 7, 8, 9, 10]]] 2 = Inr ws"
    "length ws = 5 div 2"
    by blast
  from ws(1) ev have "ws = [[[[0, 1], [5, 6]], [[1, 2], [6, 7]]], [[[2, 3], [7, 8]], [[3, 4], [8, 9]]]]"
    by simp
  with ws(2) have n: "length [[[[0, 1], [5, 6]], [[1, 2], [6, 7 :: nat]]], [[[2, 3], [7, 8]], [[3, 4], [8, 9]]]] = 5 div 2"
    by (simp only:)
  from s x2 l mx my ev n show ?thesis by (intro conjI)
qed

section \<open>Properties of the training loop\<close>

text \<open>
  Claim C1, at a run of one epoch over three training windows with \<open>save_every_n = 2\<close>:
  the claim says that every training batch after the first is fed the state that the
  batch before it returned. The validation pass that runs after iteration 2 stores its
  own states in the variable \<^verbatim>\<open>new_state\<close> (first the zero state, then the final state of
  each validation batch), and the loop feeds that variable to iteration 3. In the run
  below a training step adds 1 to the state and a validation step adds 10: iteration 2
  returns the state 2, and iteration 3 is fed 10, the state left by the validation pass
  started again from zero.
\<close>

theorem train_state_clobbered_by_validation:
  "train \<lparr>zero_state = 0 :: nat,
          train_run = (\<lambda>p x y s. (0, s + 1, p)),
          eval_run = (\<lambda>p x y s. (0, s + 10))\<rparr>
     () [[1, 2, 3 :: nat]] [[2, 3, 4]] [[4]] [[5]] 1 1 2
   = Inr \<lparr>session = (), new_state = 10, loss = 0,
          fed = [(1, 0, 1), (2, 1, 2), (3, 10, 11)],
          saved = [(2, [0]), (3, [0])]\<rparr>"
  by code_simp

section \<open>Properties of \<open>pick_top_n\<close>\<close>

lemma argsort_length: "is_argsort p idx \<Longrightarrow> length idx = length p"
  by (simp add: is_argsort_def)

lemma argsort_distinct: "is_argsort p idx \<Longrightarrow> distinct idx"
  by (simp add: is_argsort_def)

lemma argsort_sorted: "is_argsort p idx \<Longrightarrow> sorted (map (\<lambda>i. p ! i) idx)"
  by (simp add: is_argsort_def)

lemma argsort_set:
  assumes "is_argsort p idx"
  shows "set idx = {0..<length p}"
proof (rule card_subset_eq)
  show "finite {0..<length p}" by simp
  show "set idx \<subseteq> {0..<length p}"
    using assms by (auto simp: is_argsort_def list_all_iff)
  have "card (set idx) = length idx"
    using argsort_distinct[OF assms] by (rule distinct_card)
  then show "card (set idx) = card {0..<length p}"
    using argsort_length[OF assms] by simp
qed

lemma argsort_mono:
  assumes "is_argsort p idx" and "a \<le> b" and "b < length p"
  shows "p ! (idx ! a) \<le> p ! (idx ! b)"
proof -
  have b: "b < length (map (\<lambda>i. p ! i) idx)"
    using assms(3) by (simp add: argsort_length[OF assms(1)])
  from sorted_nth_mono[OF argsort_sorted[OF assms(1)] assms(2) b]
  show ?thesis using assms(2,3) by (simp add: argsort_length[OF assms(1)])
qed

lemma stable_argsort_admissible: "is_argsort p (stable_argsort p)"
  by (simp add: is_argsort_def stable_argsort_def list_all_iff)

lemma assign_zero_length: "length (assign_zero idx p) = length p"
  unfolding assign_zero_def by (induction idx arbitrary: p) auto

lemma assign_zero_nth:
  "i < length p \<Longrightarrow> assign_zero idx p ! i = (if i \<in> set idx then 0 else p ! i)"
  unfolding assign_zero_def
proof (induction idx arbitrary: p)
  case Nil
  then show ?case by simp
next
  case (Cons j idx)
  from Cons.prems have "i < length (p[j := 0])" by simp
  from Cons.IH[OF this] Cons.prems show ?case
    by (auto simp: nth_list_update)
qed

lemma slice_neg_take:
  "1 \<le> top_n \<Longrightarrow> slice_to (- top_n) xs = take (length xs - nat top_n) xs"
  by (auto simp: slice_to_def py_index_def max_def intro!: arg_cong2[where f = take])

lemma slice_neg_drop:
  "1 \<le> top_n \<Longrightarrow> slice_from (- top_n) xs = drop (length xs - nat top_n) xs"
  by (auto simp: slice_from_def py_index_def max_def intro!: arg_cong2[where f = drop])

lemma nth_le_sum_list:
  fixes xs :: "real list"
  shows "\<forall>x \<in> set xs. 0 \<le> x \<Longrightarrow> i < length xs \<Longrightarrow> xs ! i \<le> sum_list xs"
proof (induction xs arbitrary: i)
  case Nil
  then show ?case by simp
next
  case (Cons x xs)
  have nn: "0 \<le> sum_list xs" using Cons.prems(1) by (simp add: sum_list_nonneg)
  show ?case
  proof (cases i)
    case 0
    then show ?thesis using nn by simp
  next
    case (Suc k)
    with Cons.prems have "xs ! k \<le> sum_list xs" by (intro Cons.IH) auto
    with Suc Cons.prems(1) show ?thesis by simp
  qed
qed

lemma sum_list_pos_nth:
  fixes xs :: "real list"
  shows "0 < sum_list xs \<Longrightarrow> \<exists>i < length xs. 0 < xs ! i"
proof (induction xs)
  case Nil
  then show ?case by simp
next
  case (Cons x xs)
  show ?case
  proof (cases "0 < x")
    case True
    then show ?thesis by (intro exI[of _ 0]) simp
  next
    case False
    with Cons.prems have "0 < sum_list xs" by simp
    from Cons.IH[OF this] obtain i where "i < length xs" "0 < xs ! i" by blast
    then show ?thesis by (intro exI[of _ "Suc i"]) simp
  qed
qed

lemma sum_list_divide:
  fixes xs :: "real list"
  shows "sum_list (map (\<lambda>v. v / s) xs) = sum_list xs / s"
  by (induction xs) (simp_all add: add_divide_distrib)

lemma cumsum_from_length: "length (cumsum_from a xs) = length xs"
  by (induction xs arbitrary: a) auto

lemma cumsum_from_last: "xs \<noteq> [] \<Longrightarrow> last (cumsum_from a xs) = a + sum_list xs"
proof (induction xs arbitrary: a)
  case Nil
  then show ?case by simp
next
  case (Cons x xs)
  show ?case
  proof (cases "xs = []")
    case True
    then show ?thesis by simp
  next
    case False
    then have "cumsum_from (a + x) xs \<noteq> []"
      using cumsum_from_length[of "a + x" xs] by auto
    with Cons.IH[OF False, of "a + x"] show ?thesis by (simp add: add.assoc)
  qed
qed

lemma inverse_cdf_bracket:
  "a \<le> u \<Longrightarrow> u < a + sum_list q \<Longrightarrow>
     searchsorted_right (cumsum_from a q) u < length q \<and>
     a + sum_list (take (searchsorted_right (cumsum_from a q) u) q) \<le> u \<and>
     u < a + sum_list (take (Suc (searchsorted_right (cumsum_from a q) u)) q)"
proof (induction q arbitrary: a)
  case Nil
  then show ?case by simp
next
  case (Cons x xs)
  show ?case
  proof (cases "a + x \<le> u")
    case True
    have "u < (a + x) + sum_list xs" using Cons.prems(2) by (simp add: add.assoc)
    from Cons.IH[OF True this] True show ?thesis
      by (simp add: searchsorted_right_def add.assoc)
  next
    case False
    with Cons.prems(1) show ?thesis by (simp add: searchsorted_right_def)
  qed
qed

lemma in_take_nth: "x \<in> set (take d xs) \<Longrightarrow> \<exists>a. a < d \<and> a < length xs \<and> xs ! a = x"
  by (auto simp: in_set_conv_nth)

lemma in_drop_nth: "x \<in> set (drop d xs) \<Longrightarrow> \<exists>b. d \<le> b \<and> b < length xs \<and> xs ! b = x"
proof -
  assume "x \<in> set (drop d xs)"
  then obtain k where k: "k < length (drop d xs)" "drop d xs ! k = x"
    by (auto simp: in_set_conv_nth)
  then have "d + k < length xs" by simp
  moreover have "xs ! (d + k) = x" using k by simp
  ultimately show ?thesis by (intro exI[of _ "d + k"]) simp
qed

lemma take_or_drop: "x \<in> set xs \<Longrightarrow> x \<in> set (take d xs) \<or> x \<in> set (drop d xs)"
  by (metis Un_iff append_take_drop_id set_append)

lemma kept_indices_drop:
  assumes "is_argsort preds idx" and "1 \<le> top_n"
  shows "slice_from (- top_n) idx =
           drop (length preds - nat top_n) (idx)"
  unfolding slice_neg_drop[OF assms(2)] argsort_length[OF assms(1)] ..

lemma zeroed_indices_take:
  assumes "is_argsort preds idx" and "1 \<le> top_n"
  shows "slice_to (- top_n) (idx) =
           take (length preds - nat top_n) (idx)"
  unfolding slice_neg_take[OF assms(2)] argsort_length[OF assms(1)] ..

lemma kept_or_zeroed:
  assumes "is_argsort preds idx" and "1 \<le> top_n" and "i < length preds"
  shows "i \<in> set (slice_to (- top_n) (idx)) \<longleftrightarrow>
         i \<notin> set (slice_from (- top_n) idx)"
proof -
  let ?d = "length preds - nat top_n"
  have "i \<in> set (idx)"
    using assms(3) by (simp add: argsort_set[OF assms(1)])
  then have either:
    "i \<in> set (take ?d (idx)) \<or> i \<in> set (drop ?d (idx))"
    by (rule take_or_drop)
  have "set (take ?d (idx)) \<inter> set (drop ?d (idx)) = {}"
    using argsort_distinct[OF assms(1)] by (rule set_take_disj_set_drop_if_distinct) simp
  with either show ?thesis
    unfolding kept_indices_drop[OF assms(1,2)] zeroed_indices_take[OF assms(1,2)] by auto
qed

lemma kept_indices_top:
  assumes "is_argsort preds idx" and "1 \<le> top_n"
    and "i \<in> set (slice_from (- top_n) idx)"
    and "j < length preds" and "j \<notin> set (slice_from (- top_n) idx)"
  shows "preds ! j \<le> preds ! i"
proof -
  let ?d = "length preds - nat top_n"
  from assms(3) have "i \<in> set (drop ?d (idx))"
    by (simp only: kept_indices_drop[OF assms(1,2)])
  from in_drop_nth[OF this] obtain b where
    b: "?d \<le> b" "b < length (idx)" "idx ! b = i" by blast
  from b(2) have bl: "b < length preds" by (simp only: argsort_length[OF assms(1)])
  from kept_or_zeroed[OF assms(1,2,4)] assms(5)
  have "j \<in> set (slice_to (- top_n) (idx))" by blast
  then have "j \<in> set (take ?d (idx))"
    by (simp only: zeroed_indices_take[OF assms(1,2)])
  from in_take_nth[OF this] obtain a where a: "a < ?d" "idx ! a = j"
    by blast
  from a(1) b(1) have "a \<le> b" by linarith
  with assms(1) have "preds ! (idx ! a) \<le> preds ! (idx ! b)"
    using bl by (rule argsort_mono)
  then show ?thesis by (simp only: a(2) b(3))
qed

lemma kept_indices_card:
  assumes "is_argsort preds idx" and "1 \<le> top_n"
  shows "distinct (slice_from (- top_n) idx)"
    and "length (slice_from (- top_n) idx) = min (nat top_n) (length preds)"
    and "set (slice_from (- top_n) idx) \<subseteq> {0..<length preds}"
proof -
  show "distinct (slice_from (- top_n) idx)"
    unfolding kept_indices_drop[OF assms] using argsort_distinct[OF assms(1)] by simp
  show "length (slice_from (- top_n) idx) = min (nat top_n) (length preds)"
    unfolding kept_indices_drop[OF assms] length_drop argsort_length[OF assms(1)]
    using assms(2) by linarith
  show "set (slice_from (- top_n) idx) \<subseteq> {0..<length preds}"
    unfolding kept_indices_drop[OF assms]
    using set_drop_subset[of "length preds - nat top_n" "idx"]
    by (simp only: argsort_set[OF assms(1)])
qed

lemma kept_indices_last:
  assumes "is_argsort preds idx" and "1 \<le> top_n" and "0 < length preds"
  shows "idx ! (length preds - 1) \<in> set (slice_from (- top_n) idx)"
proof -
  define d where "d = length preds - nat top_n"
  define k where "k = length preds - 1 - d"
  note len = argsort_length[OF assms(1)]
  have d: "d \<le> length preds - 1" using assms(2,3) by (simp add: d_def)
  then have dk: "d + k = length preds - 1" by (simp add: k_def)
  have dl: "d \<le> length (idx)" using d by (simp add: len)
  have "drop d (idx) ! k = idx ! (d + k)"
    using dl by (rule nth_drop)
  then have eq: "drop d (idx) ! k = idx ! (length preds - 1)"
    by (simp only: dk)
  have "length (drop d (idx)) = length preds - d" by (simp add: len)
  moreover have "k < length preds - d" using assms(3) d unfolding k_def by arith
  ultimately have "k < length (drop d (idx))" by simp
  then have "drop d (idx) ! k \<in> set (drop d (idx))" by (rule nth_mem)
  with eq show ?thesis
    unfolding kept_indices_drop[OF assms(1,2)] d_def by simp
qed

lemma truncated_nth:
  assumes "is_argsort preds idx" and "1 \<le> top_n" and "i < length preds"
  shows "assign_zero (slice_to (- top_n) (idx)) preds ! i =
           (if i \<in> set (slice_from (- top_n) idx) then preds ! i else 0)"
  using assign_zero_nth[OF assms(3)] kept_or_zeroed[OF assms] by simp

lemma kept_indices_max:
  assumes "is_argsort preds idx" and "1 \<le> top_n" and "j < length preds"
  shows "idx ! (length preds - 1) \<in> set (slice_from (- top_n) idx) \<and>
         idx ! (length preds - 1) < length preds \<and>
         preds ! j \<le> preds ! (idx ! (length preds - 1))"
proof -
  let ?m = "idx ! (length preds - 1)"
  from assms(3) have V: "0 < length preds" by auto
  have m: "?m \<in> set (slice_from (- top_n) idx)"
    by (rule kept_indices_last[OF assms(1,2) V])
  have "set (slice_from (- top_n) idx) \<subseteq> {0..<length preds}"
    by (rule kept_indices_card(3)[OF assms(1,2)])
  with m have mV: "?m < length preds" by auto
  have "j \<in> set (idx)" using assms(3) by (simp add: argsort_set[OF assms(1)])
  then obtain a where a: "a < length (idx)" "idx ! a = j"
    unfolding in_set_conv_nth by blast
  then have le: "a \<le> length preds - 1" by (simp add: argsort_length[OF assms(1)])
  have lt: "length preds - 1 < length preds" using V by simp
  have "preds ! (idx ! a) \<le> preds ! ?m"
    using assms(1) le lt by (rule argsort_mono)
  then have "preds ! j \<le> preds ! ?m" by (simp only: a(2))
  with m mV show ?thesis by blast
qed

lemma truncated_nonneg:
  assumes "is_argsort preds idx" and "1 \<le> top_n"
    and "\<forall>x \<in> set preds. 0 \<le> x"
  shows "\<forall>x \<in> set (assign_zero (slice_to (- top_n) (idx)) preds). 0 \<le> x"
proof
  let ?p = "assign_zero (slice_to (- top_n) (idx)) preds"
  fix x assume "x \<in> set ?p"
  then obtain i where i: "i < length ?p" "?p ! i = x"
    unfolding in_set_conv_nth by blast
  then have il: "i < length preds" by (simp only: assign_zero_length)
  then have "preds ! i \<in> set preds" by (rule nth_mem)
  with assms(3) have nn: "0 \<le> preds ! i" by blast
  have "?p ! i = (if i \<in> set (slice_from (- top_n) idx) then preds ! i else 0)"
    using assms(1,2) il by (rule truncated_nth)
  then have "0 \<le> ?p ! i"
    using nn by (cases "i \<in> set (slice_from (- top_n) idx)") simp_all
  then show "0 \<le> x" by (simp only: i(2))
qed

lemma truncated_sum_pos:
  assumes "is_argsort preds idx" and "1 \<le> top_n"
    and "\<forall>x \<in> set preds. 0 \<le> x" and "0 < sum_list preds"
  shows "0 < sum_list (assign_zero (slice_to (- top_n) (idx)) preds)"
proof -
  let ?p = "assign_zero (slice_to (- top_n) (idx)) preds"
  let ?m = "idx ! (length preds - 1)"
  from sum_list_pos_nth[OF assms(4)] obtain j where j: "j < length preds" "0 < preds ! j" by blast
  from kept_indices_max[OF assms(1,2) j(1)]
  have m: "?m \<in> set (slice_from (- top_n) idx)" and mV: "?m < length preds"
    and le: "preds ! j \<le> preds ! ?m" by blast+
  from le j(2) have pos: "0 < preds ! ?m" by simp
  have "?p ! ?m = (if ?m \<in> set (slice_from (- top_n) idx) then preds ! ?m else 0)"
    using assms(1,2) mV by (rule truncated_nth)
  then have eq: "?p ! ?m = preds ! ?m" using m by (simp only: if_True)
  have mp: "?m < length ?p" using mV by (simp only: assign_zero_length)
  have "?p ! ?m \<le> sum_list ?p"
    using truncated_nonneg[OF assms(1,2,3)] mp by (rule nth_le_sum_list)
  with eq pos show ?thesis by simp
qed

lemma truncated_sum:
  assumes "is_argsort preds idx" and "1 \<le> top_n"
  shows "sum_list (assign_zero (slice_to (- top_n) (idx)) preds) =
           sum_list (map (\<lambda>k. preds ! k) (slice_from (- top_n) idx))"
proof -
  let ?p = "assign_zero (slice_to (- top_n) (idx)) preds"
  let ?K = "slice_from (- top_n) idx"
  have K: "set ?K \<subseteq> {0..<length preds}" by (rule kept_indices_card(3)[OF assms])
  have "sum_list ?p = (\<Sum>i = 0..<length ?p. ?p ! i)" by (rule sum_list_sum_nth)
  also have "\<dots> = (\<Sum>i \<in> {0..<length preds}. ?p ! i)" by (simp only: assign_zero_length)
  also have "\<dots> = (\<Sum>i \<in> set ?K. preds ! i)"
  proof (rule sum.mono_neutral_cong_right)
    show "finite {0..<length preds}" by simp
    show "set ?K \<subseteq> {0..<length preds}" by (rule K)
    show "\<forall>i \<in> {0..<length preds} - set ?K. ?p ! i = 0"
    proof
      fix i assume i: "i \<in> {0..<length preds} - set ?K"
      then have "i < length preds" by simp
      with assms have "?p ! i = (if i \<in> set ?K then preds ! i else 0)" by (rule truncated_nth)
      with i show "?p ! i = 0" by simp
    qed
    show "?p ! x = preds ! x" if "x \<in> set ?K" for x
    proof -
      from that K have "x < length preds" by auto
      with assms have "?p ! x = (if x \<in> set ?K then preds ! x else 0)" by (rule truncated_nth)
      with that show ?thesis by simp
    qed
  qed
  also have "\<dots> = sum_list (map (\<lambda>k. preds ! k) ?K)"
    using kept_indices_card(1)[OF assms] by (simp only: sum_list_distinct_conv_sum_set)
  finally show ?thesis .
qed

lemma renormalized_top_n:
  assumes "is_argsort preds idx" and "1 \<le> top_n"
  shows "map (\<lambda>v. v / sum_list (assign_zero (slice_to (- top_n) (idx)) preds))
           (assign_zero (slice_to (- top_n) (idx)) preds) =
         top_n_distribution (slice_from (- top_n) idx) preds"
proof (rule nth_equalityI)
  let ?p = "assign_zero (slice_to (- top_n) (idx)) preds"
  let ?K = "slice_from (- top_n) idx"
  show "length (map (\<lambda>v. v / sum_list ?p) ?p) = length (top_n_distribution ?K preds)"
    by (simp add: top_n_distribution_def assign_zero_length)
  fix i assume "i < length (map (\<lambda>v. v / sum_list ?p) ?p)"
  then have i: "i < length preds" by (simp add: assign_zero_length)
  from assms i have pi: "?p ! i = (if i \<in> set ?K then preds ! i else 0)" by (rule truncated_nth)
  have "map (\<lambda>v. v / sum_list ?p) ?p ! i = ?p ! i / sum_list ?p"
    using i by (simp add: assign_zero_length)
  also have "\<dots> = (if i \<in> set ?K then preds ! i else 0) / sum_list (map (\<lambda>k. preds ! k) ?K)"
    by (simp only: pi truncated_sum[OF assms])
  also have "\<dots> = top_n_distribution ?K preds ! i"
    using i by (simp add: top_n_distribution_def)
  finally show "map (\<lambda>v. v / sum_list ?p) ?p ! i = top_n_distribution ?K preds ! i" .
qed

lemma np_random_choice_draw:
  assumes "q \<noteq> []" and "\<forall>x \<in> set q. 0 \<le> x" and "sum_list q = 1"
    and "0 \<le> u" and "u < 1"
  shows "\<exists>c. np_random_choice (length q) q u = Inr c \<and> categorical_draw q u c"
proof -
  have neg: "\<not> list_ex (\<lambda>x. x < 0) q"
    unfolding list_ex_iff using assms(2) by (meson not_less)
  have l: "last (cumsum_from 0 q) = 1"
    using cumsum_from_last[OF assms(1), of 0] assms(3) by simp
  have norm: "map (\<lambda>c. c / last (cumsum_from 0 q)) (cumsum_from 0 q) = cumsum_from 0 q"
    unfolding l by simp
  have len: "length q \<noteq> 0" using assms(1) by simp
  have val: "np_random_choice (length q) q u = Inr (searchsorted_right (cumsum_from 0 q) u)"
    unfolding np_random_choice_def Let_def norm
    by (simp only: len neg assms(3) if_False simp_thms)
  have "u < 0 + sum_list q" using assms(3,5) by simp
  from inverse_cdf_bracket[OF assms(4) this]
  have "categorical_draw q u (searchsorted_right (cumsum_from 0 q) u)"
    unfolding categorical_draw_def by simp
  with val show ?thesis by blast
qed

lemma categorical_draw_positive:
  "categorical_draw q u c \<Longrightarrow> c < length q \<and> 0 < q ! c"
proof -
  assume d: "categorical_draw q u c"
  then have c: "c < length q" and lo: "sum_list (take c q) \<le> u"
    and hi: "u < sum_list (take (Suc c) q)"
    by (simp_all add: categorical_draw_def)
  from c have "take (Suc c) q = take c q @ [q ! c]" by (rule take_Suc_conv_app_nth)
  then have "sum_list (take (Suc c) q) = sum_list (take c q) + q ! c" by simp
  with lo hi have "0 < q ! c" by simp
  with c show ?thesis by simp
qed

lemma pick_top_n_unfold:
  assumes "length preds \<noteq> 1"
  shows "pick_top_n np_argsort preds V top_n u =
           (assign_zero (slice_to (- top_n) (np_argsort preds)) preds,
            np_random_choice V
              (map (\<lambda>v. v / sum_list (assign_zero (slice_to (- top_n) (np_argsort preds)) preds))
                 (assign_zero (slice_to (- top_n) (np_argsort preds)) preds)) u)"
  unfolding pick_top_n_def Let_def by (simp only: assms if_False)

lemma renormalized:
  fixes p :: "real list"
  assumes "\<forall>x \<in> set p. 0 \<le> x" and "0 < sum_list p"
  shows "\<forall>x \<in> set (map (\<lambda>v. v / sum_list p) p). 0 \<le> x"
    and "sum_list (map (\<lambda>v. v / sum_list p) p) = 1"
proof -
  show "\<forall>x \<in> set (map (\<lambda>v. v / sum_list p) p). 0 \<le> x"
  proof
    fix x assume "x \<in> set (map (\<lambda>v. v / sum_list p) p)"
    then obtain v where v: "v \<in> set p" "x = v / sum_list p" by auto
    from v(1) assms(1) have "0 \<le> v" by blast
    with assms(2) v(2) show "0 \<le> x" by simp
  qed
  show "sum_list (map (\<lambda>v. v / sum_list p) p) = 1"
    unfolding sum_list_divide using assms(2) by simp
qed

text \<open>
  Claim C3, as stated, fails for a vocabulary of one symbol: \<open>[1]\<close> is a probability
  distribution over \<open>V = 1\<close> symbols and \<open>top_n = 1\<close> lies in \<open>[1, V]\<close>, but no symbol
  is selected. \<^verbatim>\<open>np.squeeze\<close> turns the \<open>1 \<times> 1\<close> array into an array without axes, and
  the indexed assignment raises IndexError.
\<close>

theorem pick_top_n_single_symbol_raises:
  "list_all (\<lambda>x. 0 \<le> x) [1 :: real] \<and> sum_list [1 :: real] = 1 \<and>
   (1 :: int) \<le> 1 \<and> (1 :: int) \<le> int (length [1 :: real]) \<and>
   (0 :: real) \<le> 1 / 2 \<and> (1 / 2 :: real) < 1 \<and>
   is_argsort [1] (stable_argsort [1]) \<and>
   pick_top_n stable_argsort [1] (length [1 :: real]) 1 (1 / 2) = ([1], Inl IndexError)"
  by code_simp

text \<open>
  Claim C3, amended: for a probability distribution \<open>preds\<close> over \<open>V \<ge> 2\<close> symbols,
  \<open>1 \<le> top_n \<le> V\<close>, every admissible result of \<^verbatim>\<open>np.argsort\<close> and every draw \<open>u\<close> in
  \<open>[0, 1)\<close>:
  \<^item> the kept indices are \<open>top_n\<close> distinct symbols, and each of them has a probability
    at least that of every symbol that is not kept;
  \<^item> the call returns a symbol \<open>c\<close>; \<open>c\<close> is one of the kept symbols, has positive
    probability, and is the symbol that \<open>u\<close> selects from the top-N distribution of the
    specification (\<open>categorical_draw\<close>), so that a uniform \<open>u\<close> selects each symbol with
    its renormalised probability;
  \<^item> that distribution is zero outside the kept symbols, is \<open>preds ! i\<close> divided by the
    kept mass on a kept symbol \<open>i\<close>, has no negative entry and sums to 1;
  \<^item> in the code: the array after the indexed assignment is \<open>preds\<close> with every entry
    that is not kept set to zero, and dividing it by its sum gives that distribution.
\<close>

theorem pick_top_n_selects_top:
  assumes "is_argsort preds (np_argsort preds)"
    and "\<forall>x \<in> set preds. 0 \<le> x" and "sum_list preds = 1" and "2 \<le> length preds"
    and "1 \<le> top_n" and "top_n \<le> int (length preds)"
    and "0 \<le> u" and "u < 1"
  shows "distinct (kept_indices np_argsort preds top_n) \<and>
         length (kept_indices np_argsort preds top_n) = nat top_n \<and>
         set (kept_indices np_argsort preds top_n) \<subseteq> {0..<length preds} \<and>
         (\<forall>i \<in> set (kept_indices np_argsort preds top_n). \<forall>j < length preds.
            j \<notin> set (kept_indices np_argsort preds top_n) \<longrightarrow> preds ! j \<le> preds ! i) \<and>
         (\<exists>c. snd (pick_top_n np_argsort preds (length preds) top_n u) = Inr c \<and>
              c \<in> set (kept_indices np_argsort preds top_n) \<and> 0 < preds ! c \<and>
              categorical_draw
                (top_n_distribution (kept_indices np_argsort preds top_n) preds) u c) \<and>
         (\<forall>j < length preds. j \<notin> set (kept_indices np_argsort preds top_n) \<longrightarrow>
            top_n_distribution (kept_indices np_argsort preds top_n) preds ! j = 0) \<and>
         (\<forall>i \<in> set (kept_indices np_argsort preds top_n).
            top_n_distribution (kept_indices np_argsort preds top_n) preds ! i =
              preds ! i / sum_list (map (\<lambda>k. preds ! k) (kept_indices np_argsort preds top_n))) \<and>
         (\<forall>x \<in> set (top_n_distribution (kept_indices np_argsort preds top_n) preds). 0 \<le> x) \<and>
         sum_list (top_n_distribution (kept_indices np_argsort preds top_n) preds) = 1 \<and>
         (\<forall>i < length preds.
            fst (pick_top_n np_argsort preds (length preds) top_n u) ! i =
              (if i \<in> set (kept_indices np_argsort preds top_n) then preds ! i else 0)) \<and>
         map (\<lambda>v. v / sum_list (fst (pick_top_n np_argsort preds (length preds) top_n u)))
           (fst (pick_top_n np_argsort preds (length preds) top_n u)) =
           top_n_distribution (kept_indices np_argsort preds top_n) preds"
proof -
  let ?K = "slice_from (- top_n) (np_argsort preds)"
  let ?p = "assign_zero (slice_to (- top_n) (np_argsort preds)) preds"
  let ?q = "map (\<lambda>v. v / sum_list ?p) ?p"
  let ?D = "top_n_distribution ?K preds"
  note A = assms(1) and t1 = assms(5)
  have V: "length preds \<noteq> 1" using assms(4) by simp
  have K1: "distinct ?K" by (rule kept_indices_card(1)[OF A t1])
  have "length ?K = min (nat top_n) (length preds)" by (rule kept_indices_card(2)[OF A t1])
  also have "\<dots> = nat top_n" using assms(6) by linarith
  finally have K2: "length ?K = nat top_n" .
  have K3: "set ?K \<subseteq> {0..<length preds}" by (rule kept_indices_card(3)[OF A t1])
  have K4: "\<forall>i \<in> set ?K. \<forall>j < length preds. j \<notin> set ?K \<longrightarrow> preds ! j \<le> preds ! i"
    using kept_indices_top[OF A t1] by blast
  have f: "fst (pick_top_n np_argsort preds (length preds) top_n u) = ?p"
    and r: "snd (pick_top_n np_argsort preds (length preds) top_n u) =
              np_random_choice (length preds) ?q u"
    unfolding pick_top_n_unfold[OF V] by (simp_all only: fst_conv snd_conv)
  have qD: "?q = ?D" by (rule renormalized_top_n[OF A t1])
  have sp: "0 < sum_list preds" using assms(3) by simp
  have nn: "\<forall>x \<in> set ?p. 0 \<le> x" by (rule truncated_nonneg[OF A t1 assms(2)])
  have pos: "0 < sum_list ?p" by (rule truncated_sum_pos[OF A t1 assms(2) sp])
  have qnn: "\<forall>x \<in> set ?q. 0 \<le> x" by (rule renormalized(1)[OF nn pos])
  have qs: "sum_list ?q = 1" by (rule renormalized(2)[OF nn pos])
  have lq: "length ?q = length preds" by (simp only: length_map assign_zero_length)
  have "preds \<noteq> []" using sp by auto
  then have qne: "?q \<noteq> []" using lq by auto
  from np_random_choice_draw[OF qne qnn qs assms(7,8)]
  obtain c where c: "np_random_choice (length ?q) ?q u = Inr c" "categorical_draw ?q u c"
    by blast
  from categorical_draw_positive[OF c(2)] have cl: "c < length ?q" by (rule conjunct1)
  from categorical_draw_positive[OF c(2)] have qc: "0 < ?q ! c" by (rule conjunct2)
  from cl have cp: "c < length ?p" by (simp only: length_map)
  then have cV: "c < length preds" by (simp only: assign_zero_length)
  from qc cp have "0 < ?p ! c / sum_list ?p" by simp
  with pos have pc: "0 < ?p ! c" by (simp add: zero_less_divide_iff)
  have tn: "?p ! c = (if c \<in> set ?K then preds ! c else 0)"
    using A t1 cV by (rule truncated_nth)
  have cK: "c \<in> set ?K"
  proof (rule ccontr)
    assume "c \<notin> set ?K"
    with tn have "?p ! c = 0" by (simp only: if_False)
    with pc show False by simp
  qed
  with tn have "?p ! c = preds ! c" by (simp only: if_True)
  with pc have pcp: "0 < preds ! c" by simp
  from c(1) have rc: "np_random_choice (length preds) ?q u = Inr c" by (simp only: lq)
  from c(2) have dc: "categorical_draw ?D u c" by (simp only: qD)
  from rc cK pcp dc
  have sel: "\<exists>c. snd (pick_top_n np_argsort preds (length preds) top_n u) = Inr c \<and>
               c \<in> set ?K \<and> 0 < preds ! c \<and> categorical_draw ?D u c"
    unfolding r by blast
  have D0: "\<forall>j < length preds. j \<notin> set ?K \<longrightarrow> ?D ! j = 0"
    by (simp add: top_n_distribution_def)
  have D1: "\<forall>i \<in> set ?K. ?D ! i = preds ! i / sum_list (map (\<lambda>k. preds ! k) ?K)"
  proof
    fix i assume i: "i \<in> set ?K"
    with K3 have "i < length preds" by auto
    with i show "?D ! i = preds ! i / sum_list (map (\<lambda>k. preds ! k) ?K)"
      by (simp add: top_n_distribution_def)
  qed
  from qnn have D2: "\<forall>x \<in> set ?D. 0 \<le> x" by (simp only: qD)
  from qs have D3: "sum_list ?D = 1" by (simp only: qD)
  have F1: "\<forall>i < length preds. ?p ! i = (if i \<in> set ?K then preds ! i else 0)"
    using truncated_nth[OF A t1] by blast
  from K1 K2 K3 K4 sel D0 D1 D2 D3 F1 qD show ?thesis
    unfolding kept_indices_def f by (intro conjI)
qed

theorem pick_top_n_selects_top_witness:
  "is_argsort [1 / 10, 2 / 10, 3 / 10, 4 / 10] (stable_argsort [1 / 10, 2 / 10, 3 / 10, 4 / 10]) \<and>
   list_all (\<lambda>x. 0 \<le> x) [1 / 10, 2 / 10, 3 / 10, 4 / 10 :: real] \<and>
   sum_list [1 / 10, 2 / 10, 3 / 10, 4 / 10 :: real] = 1 \<and>
   2 \<le> length [1 / 10, 2 / 10, 3 / 10, 4 / 10 :: real] \<and>
   (1 :: int) \<le> 2 \<and> (2 :: int) \<le> int (length [1 / 10, 2 / 10, 3 / 10, 4 / 10 :: real]) \<and>
   (0 :: real) \<le> 1 / 2 \<and> (1 / 2 :: real) < 1 \<and>
   pick_top_n stable_argsort [1 / 10, 2 / 10, 3 / 10, 4 / 10]
     (length [1 / 10, 2 / 10, 3 / 10, 4 / 10 :: real]) 2 (1 / 2) = ([0, 0, 3 / 10, 4 / 10], Inr 3) \<and>
   kept_indices stable_argsort [1 / 10, 2 / 10, 3 / 10, 4 / 10] 2 = [2, 3] \<and>
   top_n_distribution [2, 3] [1 / 10, 2 / 10, 3 / 10, 4 / 10] = [0, 0, 3 / 7, 4 / 7] \<and>
   3 \<in> set (kept_indices stable_argsort [1 / 10, 2 / 10, 3 / 10, 4 / 10] 2) \<and>
   categorical_draw
     (top_n_distribution (kept_indices stable_argsort [1 / 10, 2 / 10, 3 / 10, 4 / 10] 2)
        [1 / 10, 2 / 10, 3 / 10, 4 / 10]) (1 / 2) 3"
proof -
  have h0: "is_argsort [1 / 10, 2 / 10, 3 / 10, 4 / 10]
              (stable_argsort [1 / 10, 2 / 10, 3 / 10, 4 / 10])"
    by (rule stable_argsort_admissible)
  have h1: "\<forall>x \<in> set [1 / 10, 2 / 10, 3 / 10, 4 / 10 :: real]. 0 \<le> x" by simp
  have h1': "list_all (\<lambda>x. 0 \<le> x) [1 / 10, 2 / 10, 3 / 10, 4 / 10 :: real]" by simp
  have h2: "sum_list [1 / 10, 2 / 10, 3 / 10, 4 / 10 :: real] = 1" by simp
  have hV: "2 \<le> length [1 / 10, 2 / 10, 3 / 10, 4 / 10 :: real]" by simp
  have h3: "(1 :: int) \<le> 2" by simp
  have h4: "(2 :: int) \<le> int (length [1 / 10, 2 / 10, 3 / 10, 4 / 10 :: real])" by simp
  have h5: "(0 :: real) \<le> 1 / 2" by simp
  have h6: "(1 / 2 :: real) < 1" by simp
  have ev: "pick_top_n stable_argsort [1 / 10, 2 / 10, 3 / 10, 4 / 10]
     (length [1 / 10, 2 / 10, 3 / 10, 4 / 10 :: real]) 2 (1 / 2) = ([0, 0, 3 / 10, 4 / 10], Inr 3)"
    by code_simp
  have kv: "kept_indices stable_argsort [1 / 10, 2 / 10, 3 / 10, 4 / 10] 2 = [2, 3]"
    by code_simp
  have dv: "top_n_distribution [2, 3] [1 / 10, 2 / 10, 3 / 10, 4 / 10] = [0, 0, 3 / 7, 4 / 7]"
    by code_simp
  from pick_top_n_selects_top[where np_argsort = stable_argsort
      and preds = "[1 / 10, 2 / 10, 3 / 10, 4 / 10]", OF h0 h1 h2 hV h3 h4 h5 h6]
  obtain c where c:
    "snd (pick_top_n stable_argsort [1 / 10, 2 / 10, 3 / 10, 4 / 10]
            (length [1 / 10, 2 / 10, 3 / 10, 4 / 10 :: real]) 2 (1 / 2)) = Inr c"
    "c \<in> set (kept_indices stable_argsort [1 / 10, 2 / 10, 3 / 10, 4 / 10] 2)"
    "categorical_draw
       (top_n_distribution (kept_indices stable_argsort [1 / 10, 2 / 10, 3 / 10, 4 / 10] 2)
          [1 / 10, 2 / 10, 3 / 10, 4 / 10]) (1 / 2) c"
    by blast
  from c(1) have "Inr c = (Inr 3 :: py_error + nat)" by (simp only: ev snd_conv)
  then have "c = 3" by (simp only: sum.inject)
  with c(2,3) have m: "3 \<in> set (kept_indices stable_argsort [1 / 10, 2 / 10, 3 / 10, 4 / 10] 2)"
    and q: "categorical_draw
       (top_n_distribution (kept_indices stable_argsort [1 / 10, 2 / 10, 3 / 10, 4 / 10] 2)
          [1 / 10, 2 / 10, 3 / 10, 4 / 10]) (1 / 2) 3"
    by (simp_all only:)
  from h0 h1' h2 hV h3 h4 h5 h6 ev kv dv m q show ?thesis by (intro conjI)
qed

lemma singleton_kept:
  assumes "is_argsort preds idx" and "1 \<le> top_n" and "length preds = 1"
  shows "0 \<in> set (slice_from (- top_n) idx)"
proof -
  have V: "0 < length preds" using assms(3) by simp
  from kept_indices_last[OF assms(1,2) V]
  have m: "idx ! (length preds - 1) \<in> set (slice_from (- top_n) idx)" .
  with kept_indices_card(3)[OF assms(1,2)]
  have "idx ! (length preds - 1) \<in> {0..<length preds}" by blast
  then have "idx ! (length preds - 1) = 0" using assms(3) by simp
  with m show ?thesis by simp
qed

text \<open>
  Claim C10, as stated, fails when nothing lies outside the \<open>top_n\<close> largest: with
  \<open>top_n = V = 3\<close> the indexed assignment writes to no entry, and the caller's array
  after the call is the input distribution.
\<close>

theorem pick_top_n_all_kept_preserves:
  "is_argsort [1 / 2, 1 / 3, 1 / 6] (stable_argsort [1 / 2, 1 / 3, 1 / 6]) \<and>
   (1 :: int) \<le> 3 \<and> (3 :: int) \<le> int (length [1 / 2, 1 / 3, 1 / 6 :: real]) \<and>
   snd (pick_top_n stable_argsort [1 / 2, 1 / 3, 1 / 6] 3 3 (3 / 5)) = Inr 1 \<and>
   fst (pick_top_n stable_argsort [1 / 2, 1 / 3, 1 / 6] 3 3 (3 / 5)) = [1 / 2, 1 / 3, 1 / 6]"
  by code_simp

text \<open>
  Claim C10, amended: for \<open>top_n \<ge> 1\<close> and every admissible result of \<^verbatim>\<open>np.argsort\<close>,
  after a call the caller's array has its old length, every entry outside the kept
  indices (the \<open>top_n\<close> largest) is zero and every kept entry is unchanged; the array is
  the input again exactly when every entry outside the kept indices was zero before the
  call. The renormalised probabilities are not written back.
\<close>

theorem pick_top_n_overwrites_preds:
  assumes "is_argsort preds (np_argsort preds)" and "1 \<le> top_n"
  shows "length (fst (pick_top_n np_argsort preds vocab_size top_n u)) = length preds \<and>
         (\<forall>i < length preds.
            fst (pick_top_n np_argsort preds vocab_size top_n u) ! i =
              (if i \<in> set (kept_indices np_argsort preds top_n) then preds ! i else 0)) \<and>
         (fst (pick_top_n np_argsort preds vocab_size top_n u) = preds \<longleftrightarrow>
            (\<forall>i < length preds.
               i \<notin> set (kept_indices np_argsort preds top_n) \<longrightarrow> preds ! i = 0)) \<and>
         distinct (kept_indices np_argsort preds top_n) \<and>
         length (kept_indices np_argsort preds top_n) = min (nat top_n) (length preds) \<and>
         set (kept_indices np_argsort preds top_n) \<subseteq> {0..<length preds} \<and>
         (\<forall>i \<in> set (kept_indices np_argsort preds top_n). \<forall>j < length preds.
            j \<notin> set (kept_indices np_argsort preds top_n) \<longrightarrow> preds ! j \<le> preds ! i)"
proof -
  let ?K = "slice_from (- top_n) (np_argsort preds)"
  let ?F = "fst (pick_top_n np_argsort preds vocab_size top_n u)"
  note A = assms(1) and t1 = assms(2)
  have L: "length ?F = length preds"
  proof (cases "length preds = 1")
    case True
    then show ?thesis unfolding pick_top_n_def by simp
  next
    case False
    show ?thesis unfolding pick_top_n_unfold[OF False] by (simp only: fst_conv assign_zero_length)
  qed
  have N: "\<forall>i < length preds. ?F ! i = (if i \<in> set ?K then preds ! i else 0)"
  proof (cases "length preds = 1")
    case True
    have F: "?F = preds" unfolding pick_top_n_def using True by simp
    show ?thesis
    proof (intro allI impI)
      fix i assume "i < length preds"
      then have "i = 0" using True by simp
      with singleton_kept[OF A t1 True] show "?F ! i = (if i \<in> set ?K then preds ! i else 0)"
        unfolding F by simp
    qed
  next
    case False
    show ?thesis
      unfolding pick_top_n_unfold[OF False] fst_conv
      using truncated_nth[OF A t1] by blast
  qed
  have E: "?F = preds \<longleftrightarrow> (\<forall>i < length preds. i \<notin> set ?K \<longrightarrow> preds ! i = 0)"
  proof
    assume eq: "?F = preds"
    show "\<forall>i < length preds. i \<notin> set ?K \<longrightarrow> preds ! i = 0"
    proof (intro allI impI)
      fix i assume i: "i < length preds" "i \<notin> set ?K"
      from N i(1) have "?F ! i = (if i \<in> set ?K then preds ! i else 0)" by blast
      with i(2) have "?F ! i = 0" by (simp only: if_False)
      then show "preds ! i = 0" by (simp only: eq)
    qed
  next
    assume z: "\<forall>i < length preds. i \<notin> set ?K \<longrightarrow> preds ! i = 0"
    show "?F = preds"
    proof (rule nth_equalityI)
      show "length ?F = length preds" by (rule L)
      fix i assume "i < length ?F"
      then have i: "i < length preds" by (simp only: L)
      from N i have Fi: "?F ! i = (if i \<in> set ?K then preds ! i else 0)" by blast
      show "?F ! i = preds ! i"
      proof (cases "i \<in> set ?K")
        case True
        with Fi show ?thesis by (simp only: if_True)
      next
        case False
        with z i have "preds ! i = 0" by blast
        moreover from Fi False have "?F ! i = 0" by (simp only: if_False)
        ultimately show ?thesis by simp
      qed
    qed
  qed
  have K4: "\<forall>i \<in> set ?K. \<forall>j < length preds. j \<notin> set ?K \<longrightarrow> preds ! j \<le> preds ! i"
    using kept_indices_top[OF A t1] by blast
  from L N E kept_indices_card(1)[OF A t1] kept_indices_card(2)[OF A t1]
    kept_indices_card(3)[OF A t1] K4
  show ?thesis unfolding kept_indices_def by (intro conjI)
qed

theorem pick_top_n_overwrites_preds_witness:
  "is_argsort [4 / 10, 2 / 10, 3 / 10, 1 / 10] (stable_argsort [4 / 10, 2 / 10, 3 / 10, 1 / 10]) \<and>
   (1 :: int) \<le> 2 \<and>
   fst (pick_top_n stable_argsort [4 / 10, 2 / 10, 3 / 10, 1 / 10] 4 2 (4 / 7)) =
     [4 / 10, 0, 3 / 10, 0] \<and>
   kept_indices stable_argsort [4 / 10, 2 / 10, 3 / 10, 1 / 10] 2 = [2, 0] \<and>
   length (fst (pick_top_n stable_argsort [4 / 10, 2 / 10, 3 / 10, 1 / 10] 4 2 (4 / 7))) =
     length [4 / 10, 2 / 10, 3 / 10, 1 / 10 :: real]"
proof -
  have h0: "is_argsort [4 / 10, 2 / 10, 3 / 10, 1 / 10]
              (stable_argsort [4 / 10, 2 / 10, 3 / 10, 1 / 10])"
    by (rule stable_argsort_admissible)
  have h: "(1 :: int) \<le> 2" by simp
  have ev: "fst (pick_top_n stable_argsort [4 / 10, 2 / 10, 3 / 10, 1 / 10] 4 2 (4 / 7)) =
     [4 / 10, 0, 3 / 10, 0]"
    by code_simp
  have kv: "kept_indices stable_argsort [4 / 10, 2 / 10, 3 / 10, 1 / 10] 2 = [2, 0]"
    by code_simp
  from pick_top_n_overwrites_preds[where np_argsort = stable_argsort
      and preds = "[4 / 10, 2 / 10, 3 / 10, 1 / 10]" and vocab_size = 4 and u = "4 / 7", OF h0 h]
  have n: "length (fst (pick_top_n stable_argsort [4 / 10, 2 / 10, 3 / 10, 1 / 10] 4 2 (4 / 7))) =
     length [4 / 10, 2 / 10, 3 / 10, 1 / 10 :: real]"
    by (rule conjunct1)
  from h0 h ev kv n show ?thesis by (intro conjI)
qed

section \<open>Properties of \<open>sample\<close>\<close>

text \<open>
  Whenever \<open>sample\<close> returns, the result is the string \<^verbatim>\<open>"Far"\<close> followed by
  \<open>n_samples + 1\<close> generated symbols, whatever the argument \<open>prime\<close> is.
\<close>

lemma sample_loop_appends:
  "sample_loop net np_argsort i2v len_vocab us js (c, st, samples) = Inr r \<Longrightarrow>
     \<exists>gen. r = samples @ gen \<and> length gen = length js"
proof (induction js arbitrary: c st samples)
  case Nil
  then show ?case by simp
next
  case (Cons j js)
  obtain preds st' where run: "run net c st = (preds, st')" by (cases "run net c st")
  from Cons.prems run obtain c' ch where
    step: "sample_loop net np_argsort i2v len_vocab us js (c', st', samples @ [ch]) = Inr r"
    by (auto split: sum.splits option.splits)
  from Cons.IH[OF step] obtain gen where "r = (samples @ [ch]) @ gen" "length gen = length js"
    by blast
  then have "r = samples @ (ch # gen) \<and> length (ch # gen) = length (j # js)" by simp
  then show ?case by blast
qed

lemma sample_result:
  fixes restore :: "'c \<Rightarrow> nat \<Rightarrow> nat \<Rightarrow> py_error + 's network"
  assumes "sample restore np_argsort v2i i2v len_vocab us checkpoint n_samples lstm_size
             vocab_size prime_arg = Inr r"
  shows "\<exists>gen. r = ''Far'' @ gen \<and> length gen = nat n_samples + 1"
proof -
  from assms obtain net :: "'s network" and c st ch where
    loop: "sample_loop net np_argsort i2v len_vocab us [0..<nat n_samples]
             (c, st, [CHR ''F'', CHR ''a'', CHR ''r'', ch]) = Inr r"
    unfolding sample_def Let_def
    by (auto split: sum.splits option.splits prod.splits)
  from sample_loop_appends[OF loop] obtain gen where
    "r = [CHR ''F'', CHR ''a'', CHR ''r'', ch] @ gen" "length gen = length [0..<nat n_samples]"
    by blast
  then have "r = ''Far'' @ (ch # gen) \<and> length (ch # gen) = nat n_samples + 1" by simp
  then show ?thesis by blast
qed

text \<open>
  Claim C4, at \<^verbatim>\<open>sample(checkpoint, 2, 512, 3, prime="aF")\<close> with the vocabulary
  \<open>F, a, r\<close>, a network that always predicts \<open>[1/2, 1/4, 1/4]\<close> and draws \<open>u = 3/5\<close>:
  the claim says the result begins with \<^verbatim>\<open>"aF"\<close> and has length \<open>2 + 2 = 4\<close>. The first
  statement of the function overwrites \<open>prime\<close> with \<^verbatim>\<open>"Far"\<close>, and one symbol is picked
  before the loop of \<open>n_samples\<close> picks, so the result is \<^verbatim>\<open>"Far"\<close> followed by three
  symbols. With \<^verbatim>\<open>prime="Far"\<close>, as the notebook calls it, the result has length
  \<open>3 + 3\<close>, not \<open>3 + 2\<close>.
\<close>

theorem sample_ignores_prime_and_count:
  "sample (\<lambda>c l v. Inr \<lparr>initial_state = (), run = (\<lambda>x s. ([1 / 2, 1 / 4, 1 / 4], s))\<rparr>)
      stable_argsort (vocab_to_int ''Far'') (int_to_vocab ''Far'') 3 (\<lambda>i. 3 / 5) () 2 512 3 ''aF''
     = Inr ''Faraaa'' \<and>
   sample (\<lambda>c l v. Inr \<lparr>initial_state = (), run = (\<lambda>x s. ([1 / 2, 1 / 4, 1 / 4], s))\<rparr>)
      stable_argsort (vocab_to_int ''Far'') (int_to_vocab ''Far'') 3 (\<lambda>i. 3 / 5) () 2 512 3 ''Far''
     = Inr ''Faraaa''"
  by code_simp

end
